theory Spec2Isabelle
  imports Complex_Main "HOL-Library.Word" "HOL-Library.Multiset" "HOL-Library.FSet"
begin

section \<open>Values\<close>

text \<open>
  \<^verbatim>\<open>uint256_t\<close> (command and block fingerprints) is a 256-bit word compared as an
  unsigned number; a height is a \<^verbatim>\<open>uint32_t\<close>; a replica id is a small non-negative
  integer; a block is referred to by the address of its object (the \<^verbatim>\<open>block_t\<close>
  handle), the null handle being \<open>None\<close>.
\<close>

type_synonym uint256 = "256 word"
type_synonym replica_id = nat
type_synonym blk_ref = nat

text \<open>
  The block's \<^verbatim>\<open>orders\<close> field is a \<^verbatim>\<open>std::unordered_map<ReplicaID, std::vector<uint256_t>>\<close>.
  It is modelled by the list of its entries in the order in which the container
  iterates over them, so \<^verbatim>\<open>orders.begin()\<close> is the head of the list and an empty
  container is the empty list.
\<close>

type_synonym orders_map = "(replica_id \<times> uint256 list) list"

datatype error =
    Undefined          \<comment> \<open>an operation C++ leaves undefined: end iterator or null handle
                          dereferenced, vector read out of range, comparator of
                          \<^verbatim>\<open>std::sort\<close> that is no strict weak ordering\<close>
  | BlockNotDelivered  \<comment> \<open>\<^verbatim>\<open>runtime_error("block not delivered")\<close>\<close>
  | QcBlockNotFetched  \<comment> \<open>\<^verbatim>\<open>runtime_error("block referred by qc not fetched")\<close>\<close>
  | EmptyParents       \<comment> \<open>\<^verbatim>\<open>runtime_error("empty parents")\<close>\<close>
  | HeightRegression   \<comment> \<open>\<^verbatim>\<open>runtime_error("new block should be higher than vheight")\<close>\<close>
  | SafetyBreached     \<comment> \<open>\<^verbatim>\<open>runtime_error("safety breached :( ...")\<close>\<close>

section \<open>Doubles\<close>

text \<open>
  The weights of \<^verbatim>\<open>fair_finalize\<close> and the fairness parameter are \<^verbatim>\<open>double\<close>s. A finite double
  is modelled by the real number it denotes, so \<^verbatim>\<open><\<close> on doubles is \<open><\<close> on these reals. The
  three operations the source applies to doubles are those of the machine the core runs
  on, and every one of them may round: \<^verbatim>\<open>std::pow(gamma, i)\<close> with the \<^verbatim>\<open>int\<close> exponent converted,
  the subtraction in \<^verbatim>\<open>1 - std::pow(gamma, i)\<close>, and the addition of \<^verbatim>\<open>+=\<close>. The record holds these
  operations; the state of the core carries it next to the fairness parameter.
  With a fairness parameter between 0 and 1, as the spec has it, every term added lies
  between 0 and 1 and the sums stay far below the largest double, so neither an infinity
  nor a NaN arises.
\<close>

record double_arith =
  d_pow :: "real \<Rightarrow> nat \<Rightarrow> real"
  d_sub :: "real \<Rightarrow> real \<Rightarrow> real"
  d_add :: "real \<Rightarrow> real \<Rightarrow> real"

text \<open>
  IEEE 754 binary64 in the default rounding mode, inside the normal range: the exact
  result is rounded to the nearest number with 53 significant bits, to the one with the
  even last bit when two are equally near. \<open>rne\<close> rounds to the nearest integer, ties to
  even; \<open>2 powi (\<lfloor>log 2 \<bar>x\<bar>\<rfloor> - 52)\<close> is the weight of the last of the 53 bits of \<open>x\<close>. The power
  is the correctly rounded one. A power below the normal range is kept with 53 bits
  where a double has fewer; subtracted from 1 both round to 1.
\<close>

definition rne :: "real \<Rightarrow> int" where
  "rne q = (if frac q < 1 / 2 \<or> (frac q = 1 / 2 \<and> even \<lfloor>q\<rfloor>) then \<lfloor>q\<rfloor> else \<lfloor>q\<rfloor> + 1)"

definition to_double :: "real \<Rightarrow> real" where
  "to_double x =
     (if x = 0 then 0
      else 2 powi (\<lfloor>log 2 \<bar>x\<bar>\<rfloor> - 52) * of_int (rne (x / 2 powi (\<lfloor>log 2 \<bar>x\<bar>\<rfloor> - 52))))"

definition binary64 :: double_arith where
  "binary64 = \<lparr>d_pow = (\<lambda>g i. to_double (g ^ i)), d_sub = (\<lambda>x y. to_double (x - y)),
                d_add = (\<lambda>x y. to_double (x + y))\<rparr>"


section \<open>The standard containers and algorithms used by \<^verbatim>\<open>fair_finalize\<close>\<close>

text \<open>
  \<^verbatim>\<open>std::map<uint256_t,double> cmd_weight\<close> iterates in ascending key order: it is the
  list of its entries, strictly ascending by key. \<^verbatim>\<open>insert\<close> leaves an existing
  entry alone; \<^verbatim>\<open>cmd_weight[cmd] += d\<close> creates the entry with value 0 when it is
  missing and then adds, with the addition of the machine.
\<close>

type_synonym cmd_weight_map = "(uint256 \<times> real) list"

fun map_insert :: "uint256 \<Rightarrow> real \<Rightarrow> cmd_weight_map \<Rightarrow> cmd_weight_map" where
  "map_insert k v [] = [(k, v)]"
| "map_insert k v ((k', v') # m) =
     (if k < k' then (k, v) # (k', v') # m
      else if k = k' then (k', v') # m
      else (k', v') # map_insert k v m)"

fun map_index_add :: "(real \<Rightarrow> real \<Rightarrow> real) \<Rightarrow> uint256 \<Rightarrow> real \<Rightarrow> cmd_weight_map \<Rightarrow> cmd_weight_map" where
  "map_index_add add k d [] = [(k, add 0 d)]"
| "map_index_add add k d ((k', v') # m) =
     (if k < k' then (k, add 0 d) # (k', v') # m
      else if k = k' then (k', add v' d) # m
      else (k', v') # map_index_add add k d m)"

text \<open>
  \<^verbatim>\<open>std::sort(first, last, comp)\<close> requires \<open>comp\<close> to be a strict weak ordering of the
  elements and is undefined otherwise. Where it is defined the result is a
  rearrangement of the range in which no element is \<open>comp\<close>-smaller than an earlier
  one; the model computes one by insertion.
\<close>

definition strict_weak_on :: "('a \<Rightarrow> 'a \<Rightarrow> bool) \<Rightarrow> 'a list \<Rightarrow> bool" where
  "strict_weak_on lt xs =
     (list_all (\<lambda>x. \<not> lt x x) xs \<and>
      list_all (\<lambda>x. list_all (\<lambda>y. list_all (\<lambda>z.
         (\<not> (lt x y \<and> lt y z) \<or> lt x z) \<and>
         (\<not> (\<not> lt x y \<and> \<not> lt y x \<and> \<not> lt y z \<and> \<not> lt z y) \<or> (\<not> lt x z \<and> \<not> lt z x)))
       xs) xs) xs)"

fun insert_by :: "('a \<Rightarrow> 'a \<Rightarrow> bool) \<Rightarrow> 'a \<Rightarrow> 'a list \<Rightarrow> 'a list" where
  "insert_by lt x [] = [x]"
| "insert_by lt x (y # ys) = (if lt y x then y # insert_by lt x ys else x # y # ys)"

fun insertion_sort :: "('a \<Rightarrow> 'a \<Rightarrow> bool) \<Rightarrow> 'a list \<Rightarrow> 'a list" where
  "insertion_sort lt [] = []"
| "insertion_sort lt (x # xs) = insert_by lt x (insertion_sort lt xs)"

definition std_sort :: "('a \<Rightarrow> 'a \<Rightarrow> bool) \<Rightarrow> 'a list \<Rightarrow> error + 'a list" where
  "std_sort lt xs = (if strict_weak_on lt xs then Inr (insertion_sort lt xs) else Inl Undefined)"

section \<open>\<^verbatim>\<open>fair_finalize\<close>\<close>

text \<open>\<^verbatim>\<open>bool cmp(a, b) { return a.second < b.second; }\<close>\<close>

definition cmp :: "uint256 \<times> real \<Rightarrow> uint256 \<times> real \<Rightarrow> bool" where
  "cmp a b = (snd a < snd b)"

text \<open>
  The first loop enters every command of the first sequence with weight 0; the second
  adds \<^verbatim>\<open>1 - std::pow(gamma, i)\<close> for the command at position \<open>i\<close> (counted from 1) of every
  sequence, in the arithmetic \<open>fp\<close> of the machine.
\<close>

fun init_weights :: "uint256 list \<Rightarrow> cmd_weight_map \<Rightarrow> cmd_weight_map" where
  "init_weights [] m = m"
| "init_weights (c # cs) m = init_weights cs (map_insert c 0 m)"

fun add_ranks :: "double_arith \<Rightarrow> real \<Rightarrow> nat \<Rightarrow> uint256 list \<Rightarrow> cmd_weight_map \<Rightarrow> cmd_weight_map" where
  "add_ranks fp g i [] m = m"
| "add_ranks fp g i (c # cs) m =
     add_ranks fp g (i + 1) cs (map_index_add (d_add fp) c (d_sub fp 1 (d_pow fp g i)) m)"

fun add_orders :: "double_arith \<Rightarrow> real \<Rightarrow> orders_map \<Rightarrow> cmd_weight_map \<Rightarrow> cmd_weight_map" where
  "add_orders fp g [] m = m"
| "add_orders fp g (o1 # os) m = add_orders fp g os (add_ranks fp g 1 (snd o1) m)"

definition cmd_weights :: "double_arith \<Rightarrow> real \<Rightarrow> orders_map \<Rightarrow> cmd_weight_map" where
  "cmd_weights fp g os = add_orders fp g os (init_weights (snd (hd os)) [])"

text \<open>
  \<^verbatim>\<open>weight_count[a][b]\<close> is a 16-bit counter, 0 until first incremented. The loops read
  \<^verbatim>\<open>tmp[from]\<close> and \<^verbatim>\<open>tmp[to]\<close> for all \<open>from < to < len\<close>, where \<open>len\<close> is the length of
  the first sequence: a shorter \<open>tmp\<close> is read out of range as soon as \<open>len \<ge> 2\<close>.
\<close>

type_synonym weight_count = "uint256 \<Rightarrow> uint256 \<Rightarrow> 16 word"

definition bump :: "weight_count \<Rightarrow> uint256 \<times> uint256 \<Rightarrow> weight_count" where
  "bump wc p = wc (fst p := (wc (fst p)) (snd p := wc (fst p) (snd p) + 1))"

definition index_pairs :: "nat \<Rightarrow> (nat \<times> nat) list" where
  "index_pairs len = concat (map (\<lambda>from. map (\<lambda>to. (from, to)) [from + 1 ..< len]) [0 ..< len])"

definition count_seq :: "nat \<Rightarrow> uint256 list \<Rightarrow> weight_count \<Rightarrow> error + weight_count" where
  "count_seq len tmp wc =
     (if 2 \<le> len \<and> length tmp < len then Inl Undefined
      else Inr (fold (\<lambda>p w. bump w (tmp ! fst p, tmp ! snd p)) (index_pairs len) wc))"

fun count_orders :: "nat \<Rightarrow> orders_map \<Rightarrow> weight_count \<Rightarrow> error + weight_count" where
  "count_orders len [] wc = Inr wc"
| "count_orders len (o1 # os) wc =
     (case count_seq len (snd o1) wc of
        Inl e \<Rightarrow> Inl e
      | Inr wc' \<Rightarrow> count_orders len os wc')"

text \<open>The comparator of the second sort.\<close>

definition pairwise_lt :: "weight_count \<Rightarrow> uint256 \<Rightarrow> uint256 \<Rightarrow> bool" where
  "pairwise_lt wc a b = (if wc a b = wc b a then a < b else wc a b > wc b a)"

text \<open>
  The body of \<^verbatim>\<open>fair_finalize\<close>, as a function of what it reads: the arithmetic of the
  machine, the fairness parameter of the configuration and the block's orders. Dereferencing
  \<^verbatim>\<open>orders.begin()\<close> of an empty container is undefined.
\<close>

definition fair_finalize_orders :: "double_arith \<Rightarrow> real \<Rightarrow> orders_map \<Rightarrow> error + uint256 list" where
  "fair_finalize_orders fp g os =
     (if os = [] then Inl Undefined
      else
        case std_sort cmp (cmd_weights fp g os) of
          Inl e \<Rightarrow> Inl e
        | Inr vec \<Rightarrow>
            (case count_orders (length (snd (hd os))) os (\<lambda>a b. 0) of
               Inl e \<Rightarrow> Inl e
             | Inr wc \<Rightarrow> std_sort (pairwise_lt wc) (map fst vec)))"

section \<open>Blocks, certificates and the state of the core\<close>

text \<open>
  Modelled from the spec: the declarations of \<^verbatim>\<open>Block\<close>, \<^verbatim>\<open>QuorumCert\<close>, \<^verbatim>\<open>EntityStorage\<close>
  and \<^verbatim>\<open>ReplicaConfig\<close> (\<^verbatim>\<open>hotstuff/entity.h\<close>, \<^verbatim>\<open>hotstuff/crypto.h\<close>) are not among the
  sources; the records below hold the fields that \<^verbatim>\<open>consensus.cpp\<close> reads and writes,
  with the types the spec's data model gives them.

  A quorum certificate is opaque to the core, which only creates it for a block hash,
  adds parts, computes and clones it: the record keeps the hash, the voters whose
  parts were added, and how often \<^verbatim>\<open>compute()\<close> ran on it. A partial certificate is
  opaque as well and is left out of a vote.
\<close>

record quorum_cert =
  qc_obj_hash :: uint256
  qc_parts :: "replica_id list"
  qc_computed :: nat

definition create_quorum_cert :: "uint256 \<Rightarrow> quorum_cert" where
  "create_quorum_cert h = \<lparr>qc_obj_hash = h, qc_parts = [], qc_computed = 0\<rparr>"

definition add_part :: "quorum_cert \<Rightarrow> replica_id \<Rightarrow> quorum_cert" where
  "add_part q r = q\<lparr>qc_parts := qc_parts q @ [r]\<rparr>"

definition compute :: "quorum_cert \<Rightarrow> quorum_cert" where
  "compute q = q\<lparr>qc_computed := qc_computed q + 1\<rparr>"

record block =
  parent_hashes :: "uint256 list"
  parents :: "blk_ref list"
  qc :: "quorum_cert option"
  qc_ref :: "blk_ref option"
  orders :: orders_map
  height :: "32 word"
  self_qc :: "quorum_cert option"
  voted :: "replica_id fset"
  delivered :: bool
  decision :: "8 word"
  hash :: uint256

record vote =
  voter :: replica_id
  blk_hash :: uint256

record proposal =
  proposer :: replica_id
  prop_blk :: blk_ref

record finality =
  rid :: replica_id
  fin_decision :: "8 word"
  cmd_idx :: "32 word"
  cmd_height :: "32 word"
  cmd_hash :: uint256
  fin_blk_hash :: uint256

record entity_storage =
  blk_cache :: "uint256 \<rightharpoonup> blk_ref"
  seen_propose_level :: "uint256 set"
  seen_execute_level :: "uint256 set"
  proposed_cmds :: "uint256 set"

text \<open>
  The state of a \<^verbatim>\<open>HotStuffCore\<close> after \<^verbatim>\<open>on_init\<close>: its fields, the block objects
  (\<open>heap\<close>, by address; \<open>next_ref\<close> is the address the next \<^verbatim>\<open>new Block\<close> returns), the
  arithmetic of the machine's doubles (\<open>fpu\<close>, which no operation changes), and
  what it has handed to the hooks of the surrounding system so far: \<^verbatim>\<open>do_decide\<close>,
  \<^verbatim>\<open>do_consensus\<close>, \<^verbatim>\<open>do_vote\<close>, \<^verbatim>\<open>do_broadcast_proposal\<close>, and the promises it resolved.
\<close>

record core =
  heap :: "blk_ref \<Rightarrow> block"
  next_ref :: blk_ref
  storage :: entity_storage
  b0 :: blk_ref
  hqc :: "blk_ref \<times> quorum_cert"
  b_lock :: blk_ref
  b_exec :: blk_ref
  vheight :: "32 word"
  tails :: "blk_ref set"
  nmajority :: nat
  fairness_parameter :: real
  fpu :: double_arith
  qc_waiting :: "blk_ref set"
  vote_disabled :: bool
  core_id :: replica_id
  decided :: "finality list"
  consensus :: "blk_ref list"
  votes_sent :: "(replica_id \<times> vote) list"
  broadcast :: "proposal list"
  qc_finished :: "blk_ref list"
  hqc_updates :: nat
  proposals_received :: "proposal list"
  proposals_made :: "proposal list"

text \<open>
  A member function either returns or throws; a throw leaves the state as it was
  mutated up to there, so the error carries that state.
\<close>

type_synonym 'a result = "(error \<times> core) + 'a"

definition set_blk :: "core \<Rightarrow> blk_ref \<Rightarrow> block \<Rightarrow> core" where
  "set_blk s b v = s\<lparr>heap := (heap s)(b := v)\<rparr>"

section \<open>The protocol logic of \<^verbatim>\<open>consensus.cpp\<close>\<close>

definition get_delivered_blk :: "core \<Rightarrow> uint256 \<Rightarrow> error + blk_ref" where
  "get_delivered_blk s h =
     (case blk_cache (storage s) h of
        None \<Rightarrow> Inl BlockNotDelivered
      | Some b \<Rightarrow> if delivered (heap s b) then Inr b else Inl BlockNotDelivered)"



definition on_hqc_update :: "core \<Rightarrow> core" where
  "on_hqc_update s = s\<lparr>hqc_updates := hqc_updates s + 1\<rparr>"

text \<open>\<^verbatim>\<open>qc->clone()\<close> of a null certificate is a null dereference.\<close>

definition update_hqc :: "core \<Rightarrow> blk_ref \<Rightarrow> quorum_cert option \<Rightarrow> core result" where
  "update_hqc s nhqc q =
     (if height (heap s nhqc) > height (heap s (fst (hqc s))) then
        (case q of
           None \<Rightarrow> Inl (Undefined, s)
         | Some c \<Rightarrow> Inr (on_hqc_update (s\<lparr>hqc := (nhqc, c)\<rparr>)))
      else Inr s)"

definition fair_finalize :: "core \<Rightarrow> blk_ref \<Rightarrow> error + uint256 list" where
  "fair_finalize s blk = fair_finalize_orders (fpu s) (fairness_parameter s) (orders (heap s blk))"

subsection \<open>\<^verbatim>\<open>update\<close>\<close>

text \<open>
  The first loop of \<^verbatim>\<open>update\<close> removes the commands of \<^verbatim>\<open>nblk->get_orders().begin()->second\<close>
  from the seen-at-proposal cache; on an empty container the iterator dereferenced is
  the end iterator.
\<close>

definition remove_seen_proposed :: "core \<Rightarrow> blk_ref \<Rightarrow> core result" where
  "remove_seen_proposed s nblk =
     (case orders (heap s nblk) of
        [] \<Rightarrow> Inl (Undefined, s)
      | o1 # os \<Rightarrow>
          Inr (s\<lparr>storage := (storage s)\<lparr>seen_propose_level :=
                  seen_propose_level (storage s) - set (snd o1)\<rparr>\<rparr>))"

text \<open>
  The three-step branch (\<^verbatim>\<open>HOTSTUFF_TWO_STEP\<close> is not defined), up to the test for direct
  parents: the state after the updates of \<open>hqc\<close> and \<open>b_lock\<close>, and the block \<open>blk\<close> to
  commit up to, or \<open>None\<close> where the function has returned.
\<close>

definition three_chain :: "core \<Rightarrow> blk_ref \<Rightarrow> (core \<times> blk_ref option) result" where
  "three_chain s nblk =
     (case qc_ref (heap s nblk) of
        None \<Rightarrow> Inr (s, None)
      | Some blk2 \<Rightarrow>
          if decision (heap s blk2) \<noteq> 0 then Inr (s, None)
          else
            case update_hqc s blk2 (qc (heap s nblk)) of
              Inl f \<Rightarrow> Inl f
            | Inr s1 \<Rightarrow>
                (case qc_ref (heap s1 blk2) of
                   None \<Rightarrow> Inr (s1, None)
                 | Some blk1 \<Rightarrow>
                     if decision (heap s1 blk1) \<noteq> 0 then Inr (s1, None)
                     else
                       let s2 = (if height (heap s1 blk1) > height (heap s1 (b_lock s1))
                                 then s1\<lparr>b_lock := blk1\<rparr> else s1)
                       in case qc_ref (heap s2 blk1) of
                            None \<Rightarrow> Inr (s2, None)
                          | Some blk \<Rightarrow>
                              if decision (heap s2 blk) \<noteq> 0 then Inr (s2, None)
                              else
                                (case parents (heap s2 blk2) of
                                   [] \<Rightarrow> Inl (Undefined, s2)
                                 | p2 # ps2 \<Rightarrow>
                                     if p2 \<noteq> blk1 then Inr (s2, None)
                                     else
                                       (case parents (heap s2 blk1) of
                                          [] \<Rightarrow> Inl (Undefined, s2)
                                        | p1 # ps1 \<Rightarrow>
                                            if p1 \<noteq> blk then Inr (s2, None)
                                            else Inr (s2, Some blk)))))"

text \<open>
  \<^verbatim>\<open>for (b = blk; b->height > b_exec->height; b = b->parents[0]) commit_queue.push_back(b);\<close>
  The loop need not end on an arbitrary block graph: no result is \<open>None\<close>. Reading
  \<^verbatim>\<open>parents[0]\<close> of a block without parents is out of range.
\<close>

partial_function (option) commit_walk ::
  "(blk_ref \<Rightarrow> block) \<Rightarrow> 32 word \<Rightarrow> blk_ref \<Rightarrow> blk_ref list \<Rightarrow> (error + blk_ref list \<times> blk_ref) option" where
  "commit_walk h low b commit_queue =
     (if height (h b) > low then
        (case parents (h b) of
           [] \<Rightarrow> Some (Inl Undefined)
         | p # ps \<Rightarrow> commit_walk h low p (commit_queue @ [b]))
      else Some (Inr (commit_queue, b)))"

text \<open>The body of the commit loop for one block whose final order is \<open>order\<close>.\<close>

definition commit_block :: "core \<Rightarrow> blk_ref \<Rightarrow> uint256 list \<Rightarrow> core" where
  "commit_block s blk order =
     (let s1 = set_blk s blk ((heap s blk)\<lparr>decision := 1\<rparr>);
          s2 = s1\<lparr>consensus := consensus s1 @ [blk]\<rparr>;
          s3 = s2\<lparr>decided := decided s2 @
                 map (\<lambda>i. \<lparr>rid = core_id s2, fin_decision = 1, cmd_idx = of_nat i,
                            cmd_height = height (heap s2 blk), cmd_hash = order ! i,
                            fin_blk_hash = hash (heap s2 blk)\<rparr>) [0 ..< length order]\<rparr>;
          s4 = s3\<lparr>storage := (storage s3)\<lparr>
                 seen_execute_level := seen_execute_level (storage s3) - set order,
                 proposed_cmds := proposed_cmds (storage s3) - set order\<rparr>\<rparr>
      in s4\<lparr>b_exec := blk\<rparr>)"

text \<open>The commit loop over the reversed queue; \<^verbatim>\<open>break\<close> returns the state reached.\<close>

fun commit_blocks :: "core \<Rightarrow> blk_ref list \<Rightarrow> core result" where
  "commit_blocks s [] = Inr s"
| "commit_blocks s (blk # rest) =
     (case fair_finalize s blk of
        Inl e \<Rightarrow> Inl (e, s)
      | Inr order \<Rightarrow>
          if order = [] \<and> orders (heap s blk) \<noteq> [] then Inr s
          else commit_blocks (commit_block s blk order) rest)"

definition commit :: "core \<Rightarrow> blk_ref \<Rightarrow> core result option" where
  "commit s blk =
     (case commit_walk (heap s) (height (heap s (b_exec s))) blk [] of
        None \<Rightarrow> None
      | Some (Inl e) \<Rightarrow> Some (Inl (e, s))
      | Some (Inr (commit_queue, b)) \<Rightarrow>
          if b \<noteq> b_exec s then Some (Inl (SafetyBreached, s))
          else Some (commit_blocks s (rev commit_queue)))"

definition update :: "core \<Rightarrow> blk_ref \<Rightarrow> core result option" where
  "update s nblk =
     (case remove_seen_proposed s nblk of
        Inl f \<Rightarrow> Some (Inl f)
      | Inr s0 \<Rightarrow>
          (case three_chain s0 nblk of
             Inl f \<Rightarrow> Some (Inl f)
           | Inr (s2, None) \<Rightarrow> Some (Inr s2)
           | Inr (s2, Some blk) \<Rightarrow> commit s2 blk))"

subsection \<open>\<^verbatim>\<open>on_receive_proposal\<close>\<close>

text \<open>\<^verbatim>\<open>for (b = bnew; b->height > b_lock->height; b = b->parents[0]);\<close>\<close>

partial_function (option) lock_walk ::
  "(blk_ref \<Rightarrow> block) \<Rightarrow> 32 word \<Rightarrow> blk_ref \<Rightarrow> (error + blk_ref) option" where
  "lock_walk h low b =
     (if height (h b) > low then
        (case parents (h b) of
           [] \<Rightarrow> Some (Inl Undefined)
         | p # ps \<Rightarrow> lock_walk h low p)
      else Some (Inr b))"

text \<open>The computation of \<^verbatim>\<open>opinion\<close>, which also sets \<open>vheight\<close>.\<close>

definition form_opinion :: "core \<Rightarrow> blk_ref \<Rightarrow> (bool \<times> core) result option" where
  "form_opinion s bnew =
     (if height (heap s bnew) > vheight s then
        if (case qc_ref (heap s bnew) of
              None \<Rightarrow> False
            | Some r \<Rightarrow> height (heap s r) > height (heap s (b_lock s)))
        then Some (Inr (True, s\<lparr>vheight := height (heap s bnew)\<rparr>))
        else
          (case lock_walk (heap s) (height (heap s (b_lock s))) bnew of
             None \<Rightarrow> None
           | Some (Inl e) \<Rightarrow> Some (Inl (e, s))
           | Some (Inr b) \<Rightarrow>
               if b = b_lock s then Some (Inr (True, s\<lparr>vheight := height (heap s bnew)\<rparr>))
               else Some (Inr (False, s)))
      else Some (Inr (False, s)))"

definition on_qc_finish :: "core \<Rightarrow> blk_ref \<Rightarrow> core" where
  "on_qc_finish s b =
     (if b \<in> qc_waiting s
      then s\<lparr>qc_finished := qc_finished s @ [b], qc_waiting := qc_waiting s - {b}\<rparr>
      else s)"

text \<open>\<^verbatim>\<open>on_receive_proposal_\<close>: the promise of \<^verbatim>\<open>async_wait_receive_proposal\<close> is resolved.\<close>

definition on_receive_proposal_resolve :: "core \<Rightarrow> proposal \<Rightarrow> core" where
  "on_receive_proposal_resolve s prop = s\<lparr>proposals_received := proposals_received s @ [prop]\<rparr>"

definition do_vote :: "core \<Rightarrow> replica_id \<Rightarrow> vote \<Rightarrow> core" where
  "do_vote s last_proposer v = s\<lparr>votes_sent := votes_sent s @ [(last_proposer, v)]\<rparr>"

text \<open>
  \<^verbatim>\<open>on_receive_proposal\<close> up to and including \<^verbatim>\<open>on_receive_proposal_(prop)\<close>: the opinion formed
  and the state reached; then the vote, sent if the opinion is positive and votes are
  not disabled.
\<close>

definition proposal_opinion :: "core \<Rightarrow> proposal \<Rightarrow> (bool \<times> core) result option" where
  "proposal_opinion s prop =
     (let self_prop = (proposer prop = core_id s);
          bnew = prop_blk prop
      in case (if \<not> self_prop then
                 (if \<not> delivered (heap s bnew) then Some (Inl (BlockNotDelivered, s))
                  else update s bnew)
               else Some (Inr s)) of
           None \<Rightarrow> None
         | Some (Inl f) \<Rightarrow> Some (Inl f)
         | Some (Inr s1) \<Rightarrow>
             (case form_opinion s1 bnew of
                None \<Rightarrow> None
              | Some (Inl f) \<Rightarrow> Some (Inl f)
              | Some (Inr (opinion, s2)) \<Rightarrow>
                  let s3 = (if \<not> self_prop then
                              (case qc_ref (heap s2 bnew) of
                                 None \<Rightarrow> s2
                               | Some r \<Rightarrow> on_qc_finish s2 r)
                            else s2)
                  in Some (Inr (opinion, on_receive_proposal_resolve s3 prop))))"

definition on_receive_proposal :: "core \<Rightarrow> proposal \<Rightarrow> core result option" where
  "on_receive_proposal s prop =
     (case proposal_opinion s prop of
        None \<Rightarrow> None
      | Some (Inl f) \<Rightarrow> Some (Inl f)
      | Some (Inr (opinion, s4)) \<Rightarrow>
          Some (Inr (if opinion \<and> \<not> vote_disabled s4
                     then do_vote s4 (proposer prop)
                            \<lparr>voter = core_id s4, blk_hash = hash (heap s4 (prop_blk prop))\<rparr>
                     else s4)))"

subsection \<open>\<^verbatim>\<open>on_receive_vote\<close>\<close>

definition on_receive_vote :: "core \<Rightarrow> vote \<Rightarrow> core result" where
  "on_receive_vote s v =
     (case get_delivered_blk s (blk_hash v) of
        Inl e \<Rightarrow> Inl (e, s)
      | Inr blk \<Rightarrow>
          let qsize = fcard (voted (heap s blk))
          in if qsize \<ge> nmajority s then Inr s
             else if voter v |\<in>| voted (heap s blk) then Inr s
             else
               let s1 = set_blk s blk ((heap s blk)\<lparr>voted := finsert (voter v) (voted (heap s blk))\<rparr>);
                   c0 = (case self_qc (heap s1 blk) of
                           None \<Rightarrow> create_quorum_cert (hash (heap s1 blk))
                         | Some c \<Rightarrow> c);
                   c1 = add_part c0 (voter v);
                   s2 = set_blk s1 blk ((heap s1 blk)\<lparr>self_qc := Some c1\<rparr>)
               in if qsize + 1 = nmajority s then
                    let c2 = compute c1;
                        s3 = set_blk s2 blk ((heap s2 blk)\<lparr>self_qc := Some c2\<rparr>)
                    in case update_hqc s3 blk (Some c2) of
                         Inl f \<Rightarrow> Inl f
                       | Inr s4 \<Rightarrow> Inr (on_qc_finish s4 blk)
                  else Inr s2)"

subsection \<open>\<^verbatim>\<open>on_propose\<close>\<close>






subsection \<open>\<^verbatim>\<open>fair_propose\<close>\<close>

text \<open>
  \<^verbatim>\<open>fair_propose\<close> reads the local-order cache through \<^verbatim>\<open>storage->get_ordered_hash_replia_vector()\<close>
  and \<^verbatim>\<open>storage->get_ordered_hash_vector(replica)\<close>, which are not among the sources: what they
  return is the parameters \<open>replicas\<close> and \<open>vec\<close>. The result is the \<^verbatim>\<open>orders\<close> container;
  \<^verbatim>\<open>orders[r] = v\<close> overwrites the entry of \<open>r\<close> or adds one, \<^verbatim>\<open>orders[r]\<close> reads it (an empty
  vector where there is none).
\<close>

fun orders_assign :: "orders_map \<Rightarrow> replica_id \<Rightarrow> uint256 list \<Rightarrow> orders_map" where
  "orders_assign [] r v = [(r, v)]"
| "orders_assign ((r', v') # os) r v = (if r' = r then (r', v) # os else (r', v') # orders_assign os r v)"

fun orders_at :: "orders_map \<Rightarrow> replica_id \<Rightarrow> uint256 list" where
  "orders_at [] r = []"
| "orders_at ((r', v') # os) r = (if r' = r then v' else orders_at os r)"

text \<open>
  \<^verbatim>\<open>vc\<close> is a copy of the target sequence taken before the inner loop, which appends to
  the target every command of \<open>cmds\<close> that \<open>vc\<close> does not hold.
\<close>

definition append_missing :: "orders_map \<Rightarrow> replica_id \<Rightarrow> uint256 list \<Rightarrow> orders_map" where
  "append_missing os r cmds =
     (let vc = orders_at os r
      in fold (\<lambda>c m. if c \<notin> set vc then orders_assign m r (orders_at m r @ [c]) else m) cmds os)"

text \<open>The first loop, over \<open>replicas[1..]\<close>, and the second.\<close>

fun extend_first :: "(replica_id \<Rightarrow> uint256 list) \<Rightarrow> replica_id \<Rightarrow> replica_id list \<Rightarrow> orders_map \<Rightarrow> orders_map" where
  "extend_first vec r0 [] os = os"
| "extend_first vec r0 (ri # rs) os =
     extend_first vec r0 rs (append_missing (orders_assign os ri (vec ri)) r0 (vec ri))"

fun extend_others :: "uint256 list \<Rightarrow> replica_id list \<Rightarrow> orders_map \<Rightarrow> orders_map" where
  "extend_others ordered_hash [] os = os"
| "extend_others ordered_hash (rj # rs) os =
     extend_others ordered_hash rs (append_missing os rj ordered_hash)"

definition fair_propose :: "replica_id list \<Rightarrow> (replica_id \<Rightarrow> uint256 list) \<Rightarrow> orders_map" where
  "fair_propose replicas vec =
     (case replicas of
        [] \<Rightarrow> []
      | r0 # rs \<Rightarrow>
          let os = extend_first vec r0 rs (orders_assign [] r0 (vec r0))
          in extend_others (orders_at os r0) rs os)"

section \<open>Notions used in the statements\<close>

text \<open>The weight the container holds for a command (0 when it holds none).\<close>

definition weight_of :: "cmd_weight_map \<Rightarrow> uint256 \<Rightarrow> real" where
  "weight_of m c = (case map_of m c of None \<Rightarrow> 0 | Some w \<Rightarrow> w)"


definition commands_of :: "orders_map \<Rightarrow> uint256 set" where
  "commands_of os = (\<Union>e \<in> set os. set (snd e))"

definition strict_total_on :: "('a \<Rightarrow> 'a \<Rightarrow> bool) \<Rightarrow> 'a set \<Rightarrow> bool" where
  "strict_total_on lt A =
     ((\<forall>x\<in>A. \<not> lt x x) \<and> (\<forall>x\<in>A. \<forall>y\<in>A. \<forall>z\<in>A. lt x y \<longrightarrow> lt y z \<longrightarrow> lt x z) \<and>
      (\<forall>x\<in>A. \<forall>y\<in>A. x \<noteq> y \<longrightarrow> lt x y \<or> lt y x))"

text \<open>
  Every sequence of an orders container is a permutation of one and the same set of
  commands: no sequence repeats a command and all hold the same commands.
\<close>

definition permutations_of_one_set :: "orders_map \<Rightarrow> bool" where
  "permutations_of_one_set os =
     list_all (\<lambda>e. distinct (snd e) \<and> set (snd e) = commands_of os) os"

text \<open>The state a call leaves behind, whether it returned or threw.\<close>

definition state_after :: "core result \<Rightarrow> core" where
  "state_after r = (case r of Inl (e, t) \<Rightarrow> t | Inr t \<Rightarrow> t)"



text \<open>A run of \<^verbatim>\<open>on_receive_vote\<close> calls, one per vote.\<close>

fun receive_votes :: "core \<Rightarrow> vote list \<Rightarrow> core" where
  "receive_votes s [] = s"
| "receive_votes s (v # vs) = receive_votes (state_after (on_receive_vote s v)) vs"

text \<open>How often \<^verbatim>\<open>compute()\<close> ran on the \<^verbatim>\<open>self_qc\<close> of a block.\<close>

definition computed :: "core \<Rightarrow> blk_ref \<Rightarrow> nat" where
  "computed s b = (case self_qc (heap s b) of None \<Rightarrow> 0 | Some c \<Rightarrow> qc_computed c)"

text \<open>The four monotone quantities of the core.\<close>

definition heights_grow :: "core \<Rightarrow> core \<Rightarrow> bool" where
  "heights_grow s s' =
     (height (heap s (fst (hqc s))) \<le> height (heap s' (fst (hqc s'))) \<and>
      height (heap s (b_lock s)) \<le> height (heap s' (b_lock s')) \<and>
      height (heap s (b_exec s)) \<le> height (heap s' (b_exec s')) \<and>
      vheight s \<le> vheight s')"



text \<open>Nothing was committed between two states.\<close>

definition nothing_committed :: "core \<Rightarrow> core \<Rightarrow> bool" where
  "nothing_committed s s' =
     ((\<lambda>b. decision (heap s' b)) = (\<lambda>b. decision (heap s b)) \<and>
      consensus s' = consensus s \<and> decided s' = decided s \<and> b_exec s' = b_exec s)"

text \<open>
  The union extension of the spec (step 2 of the merge): the first sequence extended,
  replica by replica, with the commands of the replica's sequence it does not yet hold,
  in encounter order.
\<close>

fun union_extend :: "(replica_id \<Rightarrow> uint256 list) \<Rightarrow> uint256 list \<Rightarrow> replica_id list \<Rightarrow> uint256 list" where
  "union_extend vec acc [] = acc"
| "union_extend vec acc (ri # rs) = union_extend vec (acc @ filter (\<lambda>c. c \<notin> set acc) (vec ri)) rs"

text \<open>A local-order cache in which replica 1 contributed a command twice.\<close>

definition repeating_cache :: "replica_id \<Rightarrow> uint256 list" where
  "repeating_cache r = (if r = 0 then [1] else [1, 1])"

text \<open>The cache of scenario S6 after front pruning, with \<open>t2 = 2\<close> and \<open>t3 = 3\<close>.\<close>

definition s6_cache :: "replica_id \<Rightarrow> uint256 list" where
  "s6_cache r = (if r = 0 then [2] else if r = 1 then [2, 3] else [3])"

text \<open>
  Two states hold the same blocks but for their decisions, and agree on what \<^verbatim>\<open>update\<close>
  never writes.
\<close>

definition update_frame :: "core \<Rightarrow> core \<Rightarrow> bool" where
  "update_frame s s' =
     (vheight s' = vheight s \<and> votes_sent s' = votes_sent s \<and> core_id s' = core_id s \<and>
      vote_disabled s' = vote_disabled s \<and> next_ref s' = next_ref s \<and>
      qc_waiting s' = qc_waiting s \<and> qc_finished s' = qc_finished s \<and>
      (\<forall>b. (heap s' b)\<lparr>decision := 0\<rparr> = (heap s b)\<lparr>decision := 0\<rparr>))"

text \<open>
  The three blocks behind \<open>nblk\<close> are directly linked: \<open>blk2 = nblk.qc_ref\<close>,
  \<open>blk1 = blk2.qc_ref\<close>, \<open>blk = blk1.qc_ref\<close>, \<open>blk2.parents[0] = blk1\<close> and
  \<open>blk1.parents[0] = blk\<close>.
\<close>

definition linked :: "core \<Rightarrow> blk_ref \<Rightarrow> blk_ref \<Rightarrow> blk_ref \<Rightarrow> blk_ref \<Rightarrow> bool" where
  "linked s nblk blk2 blk1 blk =
     (qc_ref (heap s nblk) = Some blk2 \<and> qc_ref (heap s blk2) = Some blk1 \<and>
      qc_ref (heap s blk1) = Some blk \<and>
      (\<exists>ps2. parents (heap s blk2) = blk1 # ps2) \<and> (\<exists>ps1. parents (heap s blk1) = blk # ps1))"

text \<open>
  The vote rule for a block \<open>b\<close> in a state: \<open>b\<close> has a \<open>qc_ref\<close> higher than \<open>b_lock\<close>, or the
  walk from \<open>b\<close> along \<open>parents[0]\<close> down to the height of \<open>b_lock\<close> ends at \<open>b_lock\<close>.
\<close>

definition vote_rule :: "core \<Rightarrow> blk_ref \<Rightarrow> bool" where
  "vote_rule s b =
     ((case qc_ref (heap s b) of
         None \<Rightarrow> False
       | Some r \<Rightarrow> height (heap s (b_lock s)) < height (heap s r)) \<or>
      lock_walk (heap s) (height (heap s (b_lock s))) b = Some (Inr (b_lock s)))"

text \<open>A state with the switch \<open>vote_disabled\<close> set, and an outcome with it set in its state.\<close>

definition set_vote_disabled :: "bool \<Rightarrow> core \<Rightarrow> core" where
  "set_vote_disabled f s = s\<lparr>vote_disabled := f\<rparr>"





text \<open>All sequences of the container have the length of the first.\<close>

definition same_lengths :: "orders_map \<Rightarrow> bool" where
  "same_lengths os = list_all (\<lambda>e. length (snd e) = length (snd (hd os))) os"

text \<open>
  The positions, counted from \<open>i\<close>, at which a sequence holds a command, and the weight the
  loops of \<^verbatim>\<open>fair_finalize\<close> accumulate for it: starting from 0, entry by entry in iteration
  order and position by position, \<^verbatim>\<open>1 - std::pow(gamma, position)\<close> is added in the arithmetic
  of the machine.
\<close>

fun positions :: "nat \<Rightarrow> uint256 list \<Rightarrow> uint256 \<Rightarrow> nat list" where
  "positions i [] c = []"
| "positions i (x # xs) c = (if x = c then [i] else []) @ positions (i + 1) xs c"

definition weight_sum :: "double_arith \<Rightarrow> real \<Rightarrow> orders_map \<Rightarrow> uint256 \<Rightarrow> real" where
  "weight_sum fp g os c =
     fold (\<lambda>e w. fold (\<lambda>i w. d_add fp w (d_sub fp 1 (d_pow fp g i))) (positions 1 (snd e) c) w) os 0"

text \<open>A state in which a block carries other orders.\<close>

definition with_orders :: "core \<Rightarrow> blk_ref \<Rightarrow> orders_map \<Rightarrow> core" where
  "with_orders s b os = set_blk s b ((heap s b)\<lparr>orders := os\<rparr>)"



section \<open>Example states\<close>

text \<open>
  A chain of five blocks, the genesis block 0 and blocks 1 to 4, each with the previous
  one as its parent and certified by the certificate its child carries; every other
  address holds a decided block of height 4 off the chain. Block \<open>n\<close> of the chain
  carries the orders of two replicas over the commands \<open>2n\<close> and \<open>2n + 1\<close>.
\<close>

definition ex_blk :: "nat \<Rightarrow> block" where
  "ex_blk n =
     \<lparr>parent_hashes = (if n = 0 then [] else [of_nat (n - 1)]),
      parents = (if n = 0 then [] else [n - 1]),
      qc = Some (create_quorum_cert (of_nat (n - 1))),
      qc_ref = Some (n - 1),
      orders = [(0, [of_nat (2 * n), of_nat (2 * n + 1)]), (1, [of_nat (2 * n + 1), of_nat (2 * n)])],
      height = of_nat n + 1, self_qc = None, voted = {||}, delivered = True,
      decision = (if n = 0 then 1 else 0), hash = of_nat n\<rparr>"

definition ex_heap :: "blk_ref \<Rightarrow> block" where
  "ex_heap n = (if n \<le> 4 then ex_blk n
                else (ex_blk 0)\<lparr>height := 4, hash := of_nat n, orders := []\<rparr>)"

definition ex_core :: core where
  "ex_core =
     \<lparr>heap = ex_heap, next_ref = 8,
      storage = \<lparr>blk_cache = (\<lambda>h. if h < 8 then Some (unat h) else None),
                 seen_propose_level = {}, seen_execute_level = {}, proposed_cmds = {}\<rparr>,
      b0 = 0, hqc = (0, create_quorum_cert 0), b_lock = 0, b_exec = 0, vheight = 0,
      tails = {4}, nmajority = 3, fairness_parameter = 1 / 2, fpu = binary64,
      qc_waiting = {},
      vote_disabled = False, core_id = 0, decided = [], consensus = [], votes_sent = [],
      broadcast = [], qc_finished = [], hqc_updates = 0, proposals_received = [],
      proposals_made = []\<rparr>"


definition majority_orders :: orders_map where
  "majority_orders = [(0, [3, 1, 2]), (1, [3, 1, 2]), (2, [2, 3, 1])]"

text \<open>
  Scenario S5: the example core, a quorum being three votes, with block 4 awaited and no
  vote for it received yet.
\<close>

definition s5_core :: core where
  "s5_core = ex_core\<lparr>qc_waiting := {4}\<rparr>"

text \<open>The example core with the last committed block off the chain.\<close>

definition forked_core :: core where
  "forked_core = ex_core\<lparr>b_exec := 7\<rparr>"

text \<open>The example core locked on a block of height 4 off the chain.\<close>

definition locked_core :: core where
  "locked_core = ex_core\<lparr>b_lock := 6\<rparr>"





section \<open>Properties\<close>

subsection \<open>Sorting by insertion\<close>
lemma set_insert_by: "set (insert_by lt x ys) = insert x (set ys)"
  by (induction ys) auto

lemma mset_insert_by: "mset (insert_by lt x ys) = add_mset x (mset ys)"
  by (induction ys) auto

lemma mset_insertion_sort: "mset (insertion_sort lt xs) = mset xs"
  by (induction xs) (auto simp: mset_insert_by)

lemma set_insertion_sort: "set (insertion_sort lt xs) = set xs"
  by (induction xs) (auto simp: set_insert_by)

lemma distinct_insertion_sort: "distinct (insertion_sort lt xs) = distinct xs"
  by (metis mset_insertion_sort mset_eq_imp_distinct_iff)

lemma strict_total_on_subset: "strict_total_on lt A \<Longrightarrow> B \<subseteq> A \<Longrightarrow> strict_total_on lt B"
  unfolding strict_total_on_def by (meson subsetD)

lemma sorted_insert_by:
  assumes "strict_total_on lt (insert x (set ys))" "sorted_wrt lt ys" "x \<notin> set ys"
  shows "sorted_wrt lt (insert_by lt x ys)"
  using assms
proof (induction ys)
  case Nil
  then show ?case by simp
next
  case (Cons y ys)
  have tot: "strict_total_on lt (insert x (set ys))"
    using Cons.prems(1) by (rule strict_total_on_subset) auto
  show ?case
  proof (cases "lt y x")
    case True
    have "sorted_wrt lt (insert_by lt x ys)"
      using Cons.IH tot Cons.prems by simp
    moreover have "\<forall>z\<in>set (insert_by lt x ys). lt y z"
      using True Cons.prems(2) by (auto simp: set_insert_by)
    ultimately show ?thesis using True by simp
  next
    case False
    have xy: "lt x y"
      using False Cons.prems(1,3) unfolding strict_total_on_def by auto
    have "\<forall>z\<in>set ys. lt x z"
    proof
      fix z assume z: "z \<in> set ys"
      then have "lt y z" using Cons.prems(2) by simp
      with xy z show "lt x z"
        using Cons.prems(1) unfolding strict_total_on_def by (meson insertCI list.set_intros)
    qed
    then show ?thesis using False xy Cons.prems(2) by simp
  qed
qed

lemma sorted_insertion_sort:
  "strict_total_on lt (set xs) \<Longrightarrow> distinct xs \<Longrightarrow> sorted_wrt lt (insertion_sort lt xs)"
proof (induction xs)
  case Nil
  then show ?case by simp
next
  case (Cons x xs)
  have "strict_total_on lt (set xs)"
    using Cons.prems(1) by (rule strict_total_on_subset) auto
  then have "sorted_wrt lt (insertion_sort lt xs)"
    using Cons by simp
  then show ?case
    using Cons.prems sorted_insert_by[of lt x "insertion_sort lt xs"]
    by (simp add: set_insertion_sort)
qed

lemma sorted_wrt_unique:
  assumes "strict_total_on lt (set xs)" "sorted_wrt lt xs" "sorted_wrt lt ys" "set xs = set ys"
  shows "xs = ys"
  using assms
proof (induction xs arbitrary: ys)
  case Nil
  then show ?case by simp
next
  case (Cons x xs)
  then obtain y ys' where ys: "ys = y # ys'" by (cases ys) auto
  have irr: "\<And>a. a \<in> set (x # xs) \<Longrightarrow> \<not> lt a a"
    and tr: "\<And>a b c. a \<in> set (x # xs) \<Longrightarrow> b \<in> set (x # xs) \<Longrightarrow> c \<in> set (x # xs) \<Longrightarrow> lt a b \<Longrightarrow> lt b c \<Longrightarrow> lt a c"
    using Cons.prems(1) unfolding strict_total_on_def by blast+
  have xy: "x = y"
  proof (rule ccontr)
    assume ne: "x \<noteq> y"
    have "y \<in> set xs" using Cons.prems(4) ys ne by auto
    then have 1: "lt x y" using Cons.prems(2) by simp
    have "x \<in> set ys'" using Cons.prems(4) ys ne by auto
    then have 2: "lt y x" using Cons.prems(3) ys by simp
    have "y \<in> set (x # xs)" using Cons.prems(4) ys by auto
    then show False using 1 2 irr[of x] tr[of x y x] by auto
  qed
  have nx: "x \<notin> set xs" using Cons.prems(2) irr[of x] by auto
  have ny: "y \<notin> set ys'" using Cons.prems(3,4) ys irr[of y] by auto
  have "set xs = set ys'" using Cons.prems(4) ys xy nx ny by auto
  moreover have "strict_total_on lt (set xs)"
    using Cons.prems(1) by (rule strict_total_on_subset) auto
  ultimately have "xs = ys'" using Cons.IH Cons.prems(2,3) ys by simp
  then show ?case using xy ys by simp
qed

subsection \<open>The weight container\<close>
lemma keys_map_insert: "fst ` set (map_insert k v m) = insert k (fst ` set m)"
  by (induction m) force+

lemma keys_map_index_add: "fst ` set (map_index_add add k d m) = insert k (fst ` set m)"
  by (induction m) force+

lemma sorted_map_insert: "sorted_wrt (<) (map fst m) \<Longrightarrow> sorted_wrt (<) (map fst (map_insert k v m))"
proof (induction m)
  case Nil
  then show ?case by simp
next
  case (Cons e m)
  have "\<forall>x\<in>fst ` set (map_insert k v m). fst e < x" if "fst e < k"
    using that Cons.prems by (auto simp: keys_map_insert)
  then show ?case using Cons by (cases e) (auto simp: not_less)
qed

lemma sorted_map_index_add: "sorted_wrt (<) (map fst m) \<Longrightarrow> sorted_wrt (<) (map fst (map_index_add add k d m))"
proof (induction m)
  case Nil
  then show ?case by simp
next
  case (Cons e m)
  have "\<forall>x\<in>fst ` set (map_index_add add k d m). fst e < x" if "fst e < k"
    using that Cons.prems by (auto simp: keys_map_index_add)
  then show ?case using Cons by (cases e) (auto simp: not_less)
qed

lemma keys_init_weights: "fst ` set (init_weights cs m) = set cs \<union> fst ` set m"
  by (induction cs arbitrary: m) (auto simp: keys_map_insert)

lemma sorted_init_weights: "sorted_wrt (<) (map fst m) \<Longrightarrow> sorted_wrt (<) (map fst (init_weights cs m))"
  by (induction cs arbitrary: m) (auto simp: sorted_map_insert)

lemma keys_add_ranks: "fst ` set (add_ranks fp g i cs m) = set cs \<union> fst ` set m"
  by (induction cs arbitrary: m i) (auto simp: keys_map_index_add)

lemma sorted_add_ranks: "sorted_wrt (<) (map fst m) \<Longrightarrow> sorted_wrt (<) (map fst (add_ranks fp g i cs m))"
  by (induction cs arbitrary: m i) (auto simp: sorted_map_index_add)

lemma keys_add_orders: "fst ` set (add_orders fp g os m) = commands_of os \<union> fst ` set m"
proof (induction os arbitrary: m)
  case Nil
  then show ?case by (simp add: commands_of_def)
next
  case (Cons e os)
  show ?case
    by (simp add: Cons.IH keys_add_ranks commands_of_def Un_ac)
qed

lemma sorted_add_orders: "sorted_wrt (<) (map fst m) \<Longrightarrow> sorted_wrt (<) (map fst (add_orders fp g os m))"
  by (induction os arbitrary: m) (auto simp: sorted_add_ranks)

lemma keys_cmd_weights:
  assumes "os \<noteq> []"
  shows "fst ` set (cmd_weights fp g os) = commands_of os"
proof -
  have "set (snd (hd os)) \<subseteq> commands_of os"
    using assms by (cases os) (auto simp: commands_of_def)
  then show ?thesis
    unfolding cmd_weights_def keys_add_orders keys_init_weights by auto
qed

lemma sorted_cmd_weights: "sorted_wrt (<) (map fst (cmd_weights fp g os))"
  by (simp add: cmd_weights_def sorted_add_orders sorted_init_weights)

lemma distinct_cmd_weights: "distinct (map fst (cmd_weights fp g os))"
  using sorted_cmd_weights[of fp g os] strict_sorted_iff by blast

lemma strict_weak_on_cmp: "strict_weak_on cmp xs"
  by (auto simp: strict_weak_on_def cmp_def list_all_iff)

lemma std_sort_cmp: "std_sort cmp xs = Inr (insertion_sort cmp xs)"
  by (simp add: std_sort_def strict_weak_on_cmp)

lemma pairwise_lt_total: "a \<noteq> b \<Longrightarrow> pairwise_lt wc a b \<or> pairwise_lt wc b a"
  by (auto simp: pairwise_lt_def)

lemma strict_weak_pairwise_total:
  "strict_weak_on (pairwise_lt wc) xs \<Longrightarrow> strict_total_on (pairwise_lt wc) (set xs)"
  unfolding strict_weak_on_def strict_total_on_def list_all_iff
  using pairwise_lt_total by blast

lemma std_sort_pairwise:
  assumes "std_sort (pairwise_lt wc) xs = Inr out" "distinct xs"
  shows "sorted_wrt (pairwise_lt wc) out \<and> set out = set xs \<and> distinct out
         \<and> strict_total_on (pairwise_lt wc) (set xs)"
proof -
  have sw: "strict_weak_on (pairwise_lt wc) xs" and out: "out = insertion_sort (pairwise_lt wc) xs"
    using assms(1) by (auto simp: std_sort_def split: if_splits)
  have tot: "strict_total_on (pairwise_lt wc) (set xs)"
    using sw by (rule strict_weak_pairwise_total)
  show ?thesis
    using tot assms(2) out
    by (simp add: sorted_insertion_sort set_insertion_sort distinct_insertion_sort)
qed

lemma strict_weak_on_set:
  "set xs = set ys \<Longrightarrow> strict_weak_on lt xs = strict_weak_on lt ys"
  by (simp add: strict_weak_on_def list_all_iff)

lemma std_sort_pairwise_perm:
  assumes "set xs = set ys" "distinct xs" "distinct ys"
  shows "std_sort (pairwise_lt wc) xs = std_sort (pairwise_lt wc) ys"
proof (cases "strict_weak_on (pairwise_lt wc) xs")
  case False
  then show ?thesis using strict_weak_on_set[OF assms(1)] by (simp add: std_sort_def)
next
  case True
  then have sy: "strict_weak_on (pairwise_lt wc) ys"
    using strict_weak_on_set[OF assms(1)] by simp
  have tx: "strict_total_on (pairwise_lt wc) (set xs)"
    using True by (rule strict_weak_pairwise_total)
  have ty: "strict_total_on (pairwise_lt wc) (set ys)"
    using tx assms(1) by simp
  have "insertion_sort (pairwise_lt wc) xs = insertion_sort (pairwise_lt wc) ys"
    apply (rule sorted_wrt_unique[where lt = "pairwise_lt wc"])
    using tx ty assms
    by (simp_all add: set_insertion_sort sorted_insertion_sort)
  then show ?thesis using True sy by (simp add: std_sort_def)
qed

lemma fair_finalize_orders_Inr:
  assumes "fair_finalize_orders fp g os = Inr out"
  obtains wc where "os \<noteq> []" "count_orders (length (snd (hd os))) os (\<lambda>a b. 0) = Inr wc"
    "std_sort (pairwise_lt wc) (map fst (insertion_sort cmp (cmd_weights fp g os))) = Inr out"
proof -
  have ne: "os \<noteq> []"
    using assms by (auto simp: fair_finalize_orders_def)
  show ?thesis
  proof (cases "count_orders (length (snd (hd os))) os (\<lambda>a b. 0)")
    case (Inl e)
    then show ?thesis using assms ne by (simp add: fair_finalize_orders_def std_sort_cmp)
  next
    case (Inr wc)
    then show ?thesis using assms ne that by (simp add: fair_finalize_orders_def std_sort_cmp)
  qed
qed

lemma keys_sorted_weights:
  assumes "os \<noteq> []"
  shows "set (map fst (insertion_sort cmp (cmd_weights fp g os))) = commands_of os"
    and "distinct (map fst (insertion_sort cmp (cmd_weights fp g os)))"
proof -
  have m: "mset (map fst (insertion_sort cmp (cmd_weights fp g os))) = mset (map fst (cmd_weights fp g os))"
    by (simp add: mset_insertion_sort)
  show "set (map fst (insertion_sort cmp (cmd_weights fp g os))) = commands_of os"
    using keys_cmd_weights[OF assms, of fp g] by (simp add: set_insertion_sort)
  show "distinct (map fst (insertion_sort cmp (cmd_weights fp g os)))"
    using mset_eq_imp_distinct_iff[OF m] distinct_cmd_weights[of fp g os] by simp
qed

subsection \<open>Rounding\<close>

lemma rne_of_int: "rne (of_int n) = n"
  by (simp add: rne_def)

lemma two_powr_int:
  "(2::real) powr real_of_int j = 2 powi j" "(2::real) powr (real_of_int j + 1) = 2 powi (j + 1)"
proof -
  show "(2::real) powr real_of_int j = 2 powi j"
    by (rule powr_real_of_int') simp_all
  have "(2::real) powr real_of_int (j + 1) = 2 powi (j + 1)"
    by (rule powr_real_of_int') simp_all
  then show "(2::real) powr (real_of_int j + 1) = 2 powi (j + 1)"
    by simp
qed

lemma floor_log2_bounds:
  assumes "x \<noteq> 0"
  shows "2 powi \<lfloor>log 2 \<bar>x\<bar>\<rfloor> \<le> \<bar>x\<bar>" "\<bar>x\<bar> < 2 powi (\<lfloor>log 2 \<bar>x\<bar>\<rfloor> + 1)"
  using floor_log_eq_powr_iff[of "\<bar>x\<bar>" 2 "\<lfloor>log 2 \<bar>x\<bar>\<rfloor>"] assms
  unfolding two_powr_int by simp_all


lemma to_double_exact:
  assumes x: "x = of_int m * 2 powi e" and m: "\<bar>m\<bar> < 2 ^ 53"
  shows "to_double x = x"
proof (cases "x = 0")
  case True
  then show ?thesis by (simp add: to_double_def)
next
  case False
  define k where "k = \<lfloor>log 2 \<bar>x\<bar>\<rfloor>"
  have lo: "2 powi k \<le> \<bar>x\<bar>"
    using floor_log2_bounds(1)[OF False] by (simp add: k_def)
  have "\<bar>x\<bar> = of_int \<bar>m\<bar> * 2 powi e"
    using x by (simp add: abs_mult)
  moreover have "(of_int \<bar>m\<bar> :: real) < 2 ^ 53"
    using m by (metis of_int_less_iff of_int_numeral of_int_power)
  ultimately have "\<bar>x\<bar> < 2 ^ 53 * 2 powi e"
    by (simp add: mult_strict_right_mono)
  also have "\<dots> = 2 powi (53 + e)"
    by (simp add: power_int_add)
  finally have "(2::real) powi k < 2 powi (53 + e)"
    using lo by linarith
  then have "k < 53 + e"
    using power_int_increasing[of "53 + e" k "2::real"] by force
  then have ge: "0 \<le> e - (k - 52)" by simp
  have "x / 2 powi (k - 52) = of_int m * 2 powi (e - (k - 52))"
    using x by (simp add: power_int_diff)
  also have "\<dots> = of_int m * 2 ^ nat (e - (k - 52))"
    using ge by (simp add: power_int_def)
  also have "\<dots> = of_int (m * 2 ^ nat (e - (k - 52)))"
    by simp
  finally have q: "x / 2 powi (k - 52) = of_int (m * 2 ^ nat (e - (k - 52)))" .
  have "to_double x = 2 powi (k - 52) * (x / 2 powi (k - 52))"
    using False unfolding to_double_def k_def[symmetric] q rne_of_int by (simp add: q)
  then show ?thesis by simp
qed




lemma to_double_zero: "to_double 0 = 0"
  by (simp add: to_double_def)

lemma to_double_dyadic:
  assumes "\<bar>m\<bar> < 2 ^ 53"
  shows "to_double (of_int m / 2 ^ k) = of_int m / 2 ^ k"
proof -
  have "of_int m / 2 ^ k = of_int m * (2::real) powi (- int k)"
    by (simp add: power_int_minus field_simps)
  then show ?thesis using assms by (rule to_double_exact)
qed

lemma double_vals:
  "to_double 0 = 0" "to_double (1) = 1" "to_double (1 / 2) = 1 / 2" "to_double (1 / 4) = 1 / 4" "to_double (1 / 8) = 1 / 8" "to_double (3 / 4) = 3 / 4" "to_double (7 / 8) = 7 / 8" "to_double (5 / 4) = 5 / 4" "to_double (7 / 4) = 7 / 4" "to_double (17 / 8) = 17 / 8" "to_double (5 / 2) = 5 / 2" "to_double (3 / 2) = 3 / 2" "to_double (19 / 8) = 19 / 8" "to_double (9 / 4) = 9 / 4" "to_double (2) = 2"
  using to_double_zero to_double_dyadic[of 1 0] to_double_dyadic[of 1 1] to_double_dyadic[of 1 2] to_double_dyadic[of 1 3] to_double_dyadic[of 3 2] to_double_dyadic[of 7 3] to_double_dyadic[of 5 2] to_double_dyadic[of 7 2] to_double_dyadic[of 17 3] to_double_dyadic[of 5 1] to_double_dyadic[of 3 1] to_double_dyadic[of 19 3] to_double_dyadic[of 9 2] to_double_dyadic[of 2 0]
  by simp_all


subsection \<open>The weights\<close>

lemma map_of_above_keys:
  fixes k :: uint256
  shows "\<forall>x\<in>fst ` set m. k < x \<Longrightarrow> map_of m k = None"
  unfolding map_of_eq_None_iff by (metis less_irrefl)

lemma weight_of_map_index_add:
  "sorted_wrt (<) (map fst m) \<Longrightarrow>
   weight_of (map_index_add add k d m) c = (if c = k then add (weight_of m c) d else weight_of m c)"
proof (induction m)
  case Nil
  then show ?case by (simp add: weight_of_def)
next
  case (Cons e m)
  obtain k' v' where e: "e = (k', v')" by (cases e)
  show ?case
  proof (cases "k < k'")
    case True
    then have "\<forall>x\<in>fst ` set m. k < x" using Cons.prems e by auto
    then have "map_of m k = None" by (rule map_of_above_keys)
    then show ?thesis using True e by (auto simp: weight_of_def)
  next
    case False
    then show ?thesis using Cons e by (auto simp: weight_of_def)
  qed
qed

lemma weight_of_map_insert:
  "sorted_wrt (<) (map fst m) \<Longrightarrow> weight_of (map_insert k 0 m) c = weight_of m c"
proof (induction m)
  case Nil
  then show ?case by (simp add: weight_of_def)
next
  case (Cons e m)
  obtain k' v' where e: "e = (k', v')" by (cases e)
  show ?case
  proof (cases "k < k'")
    case True
    then have "\<forall>x\<in>fst ` set m. k < x" using Cons.prems e by auto
    then have "map_of m k = None" by (rule map_of_above_keys)
    then show ?thesis using True e by (auto simp: weight_of_def)
  next
    case False
    then show ?thesis using Cons e by (auto simp: weight_of_def)
  qed
qed

lemma weight_of_init_weights:
  "sorted_wrt (<) (map fst m) \<Longrightarrow> weight_of (init_weights cs m) c = weight_of m c"
  by (induction cs arbitrary: m) (simp_all add: weight_of_map_insert sorted_map_insert)

lemma weight_of_add_ranks:
  "sorted_wrt (<) (map fst m) \<Longrightarrow>
   weight_of (add_ranks fp g i cs m) c =
     fold (\<lambda>j w. d_add fp w (d_sub fp 1 (d_pow fp g j))) (positions i cs c) (weight_of m c)"
proof (induction cs arbitrary: i m)
  case Nil
  then show ?case by simp
next
  case (Cons x xs)
  let ?m = "map_index_add (d_add fp) x (d_sub fp 1 (d_pow fp g i)) m"
  have "weight_of (add_ranks fp g (i + 1) xs ?m) c =
        fold (\<lambda>j w. d_add fp w (d_sub fp 1 (d_pow fp g j))) (positions (i + 1) xs c) (weight_of ?m c)"
    using Cons.prems by (intro Cons.IH) (simp add: sorted_map_index_add)
  then show ?case
    using Cons.prems by (simp add: weight_of_map_index_add)
qed

lemma weight_of_add_orders:
  "sorted_wrt (<) (map fst m) \<Longrightarrow>
   weight_of (add_orders fp g os m) c =
     fold (\<lambda>e w. fold (\<lambda>i w. d_add fp w (d_sub fp 1 (d_pow fp g i))) (positions 1 (snd e) c) w)
       os (weight_of m c)"
proof (induction os arbitrary: m)
  case Nil
  then show ?case by simp
next
  case (Cons e os)
  have "weight_of (add_orders fp g os (add_ranks fp g 1 (snd e) m)) c =
        fold (\<lambda>e w. fold (\<lambda>i w. d_add fp w (d_sub fp 1 (d_pow fp g i))) (positions 1 (snd e) c) w)
          os (weight_of (add_ranks fp g 1 (snd e) m) c)"
    using Cons.prems by (intro Cons.IH) (simp add: sorted_add_ranks)
  then show ?case
    using Cons.prems by (simp add: weight_of_add_ranks)
qed

lemma weight_of_cmd_weights: "weight_of (cmd_weights fp g os) c = weight_sum fp g os c"
  by (simp add: cmd_weights_def weight_sum_def weight_of_add_orders sorted_init_weights
      weight_of_init_weights)
     (simp add: weight_of_def)





subsection \<open>The pairwise counts\<close>















lemma permutations_same_length:
  assumes "permutations_of_one_set os" "e \<in> set os"
  shows "distinct (snd e) \<and> length (snd e) = length (snd (hd os))"
proof -
  have h: "hd os \<in> set os" using assms(2) by (cases os) auto
  have "distinct (snd e)" "set (snd e) = commands_of os" "distinct (snd (hd os))"
    "set (snd (hd os)) = commands_of os"
    using assms h by (auto simp: permutations_of_one_set_def list_all_iff)
  then show ?thesis by (metis distinct_card)
qed



lemma fair_finalize_orders_unfold:
  assumes "os \<noteq> []" "count_orders (length (snd (hd os))) os (\<lambda>a b. 0) = Inr wc"
  shows "fair_finalize_orders fp g os =
         std_sort (pairwise_lt wc) (map fst (insertion_sort cmp (cmd_weights fp g os)))"
  unfolding fair_finalize_orders_def std_sort_cmp using assms by simp




lemma permutations_same_lengths: "permutations_of_one_set os \<Longrightarrow> same_lengths os"
  using permutations_same_length[of os] by (simp add: same_lengths_def list_all_iff)

subsection \<open>The orders of scenario S2\<close>





subsection \<open>The final order of a block\<close>

lemmas finalize_defs = fair_finalize_def fair_finalize_orders_def std_sort_def strict_weak_on_def
  cmd_weights_def cmp_def count_seq_def index_pairs_def bump_def pairwise_lt_def upt_rec
  binary64_def double_vals power2_eq_square power3_eq_cube

lemma fair_finalize_example: "fair_finalize ex_core 1 = Inr [2, 3]"
  by (simp add: finalize_defs ex_core_def ex_heap_def ex_blk_def)

lemma fair_finalize_with_orders:
  "fair_finalize (with_orders s b os) b = fair_finalize_orders (fpu s) (fairness_parameter s) os"
  by (simp add: fair_finalize_def with_orders_def set_blk_def)

text \<open>
  Where \<^verbatim>\<open>fair_finalize\<close> is defined its output holds every command of the orders once and
  is sorted by the comparator of the second sort alone; it is the same for every fairness
  parameter and every arithmetic.
\<close>

lemma fair_finalize_orders_indep:
  assumes "fair_finalize_orders fp g os = Inr out"
  shows "\<exists>wc. count_orders (length (snd (hd os))) os (\<lambda>a b. 0) = Inr wc
           \<and> sorted_wrt (pairwise_lt wc) out \<and> distinct out \<and> set out = commands_of os
           \<and> fair_finalize_orders fp' g' os = Inr out"
proof -
  obtain wc where ne: "os \<noteq> []"
    and wc: "count_orders (length (snd (hd os))) os (\<lambda>a b. 0) = Inr wc"
    and out: "std_sort (pairwise_lt wc) (map fst (insertion_sort cmp (cmd_weights fp g os))) = Inr out"
    using assms by (rule fair_finalize_orders_Inr)
  have "std_sort (pairwise_lt wc) (map fst (insertion_sort cmp (cmd_weights fp' g' os)))
        = std_sort (pairwise_lt wc) (map fst (insertion_sort cmp (cmd_weights fp g os)))"
    using keys_sorted_weights[OF ne, of fp g] keys_sorted_weights[OF ne, of fp' g']
    by (intro std_sort_pairwise_perm) simp_all
  then have g': "fair_finalize_orders fp' g' os = Inr out"
    using out unfolding fair_finalize_orders_unfold[OF ne wc] by simp
  have "sorted_wrt (pairwise_lt wc) out \<and> set out = commands_of os \<and> distinct out"
    using std_sort_pairwise[OF out keys_sorted_weights(2)[OF ne]] keys_sorted_weights(1)[OF ne, of fp g]
    by simp
  then show ?thesis using wc g' by blast
qed

lemma majority_weights:
  "weight_of (cmd_weights binary64 (1 / 2) majority_orders) 1 = 19 / 8"
  "weight_of (cmd_weights binary64 (1 / 2) majority_orders) 2 = 9 / 4"
  "weight_of (cmd_weights binary64 (1 / 2) majority_orders) 3 = 7 / 4"
  by (simp_all add: weight_of_cmd_weights weight_sum_def majority_orders_def binary64_def
      double_vals power2_eq_square power3_eq_cube)

lemma majority_final: "fair_finalize_orders binary64 (1 / 2) majority_orders = Inr [3, 1, 2]"
  by (simp add: finalize_defs majority_orders_def)

text \<open>
  C4: the claim has the output sorted by ascending weight, the pairwise comparator
  deciding only among commands of equal weight. The code sorts by weight and then sorts
  the whole list again with \<^verbatim>\<open>std::sort\<close> and the pairwise comparator, which never looks at a
  weight and orders any two commands, so nothing of the first sort is left. With
  \<open>\<gamma> = 1/2\<close> and the orders \<open>{0: [3,1,2], 1: [3,1,2], 2: [2,3,1]}\<close> command 2 has the smaller
  weight (2.25 against 2.375 for command 1), yet the output is \<open>[3, 1, 2]\<close>: command 1
  comes before command 2, because two of the three replicas place it first. By the claim
  the output is \<open>[3, 2, 1]\<close>.
\<close>

theorem fair_finalize_ignores_weights:
  "fair_finalize (with_orders ex_core 1 majority_orders) 1 = Inr [3, 1, 2] \<and>
   fpu ex_core = binary64 \<and> fairness_parameter ex_core = 1 / 2 \<and>
   weight_of (cmd_weights binary64 (1 / 2) majority_orders) 2 <
     weight_of (cmd_weights binary64 (1 / 2) majority_orders) 1"
proof -
  have c: "fpu ex_core = binary64" "fairness_parameter ex_core = 1 / 2"
    by (simp_all add: ex_core_def)
  have "fair_finalize (with_orders ex_core 1 majority_orders) 1 = Inr [3, 1, 2]"
    unfolding fair_finalize_with_orders c by (rule majority_final)
  then show ?thesis
    using c by (simp add: majority_weights)
qed







text \<open>
  C9: the claim says that \<^verbatim>\<open>fair_finalize\<close> of a block with an empty orders container
  returns the empty sequence. The code dereferences \<^verbatim>\<open>orders.begin()\<close> of the empty
  container, so the call is undefined, and the commit loop that reaches such a block
  does not get past it.
\<close>

theorem fair_finalize_empty_orders:
  assumes "orders (heap s blk) = []"
  shows "fair_finalize s blk = Inl Undefined \<and> commit_blocks s (blk # rest) = Inl (Undefined, s)"
  using assms by (simp add: fair_finalize_def fair_finalize_orders_def)

theorem fair_finalize_empty_orders_witness:
  "orders (heap ex_core 5) = [] \<and> fair_finalize ex_core 5 = Inl Undefined \<and>
   commit_blocks ex_core [5] = Inl (Undefined, ex_core)"
proof -
  have e: "orders (heap ex_core 5) = []"
    by (simp add: ex_core_def ex_heap_def)
  show ?thesis
    using e fair_finalize_empty_orders[OF e, of "[]"] by simp
qed

subsection \<open>The merge of the local orders\<close>

lemma orders_at_assign: "orders_at (orders_assign os r v) r' = (if r' = r then v else orders_at os r')"
  by (induction os) auto

lemma keys_assign:
  "map fst (orders_assign os r v) = (if r \<in> fst ` set os then map fst os else map fst os @ [r])"
  by (induction os) force+

lemma fold_append_missing_at:
  "orders_at (fold (\<lambda>c m. if c \<notin> set vc then orders_assign m r (orders_at m r @ [c]) else m) cmds os) r' =
     (if r' = r then orders_at os r @ filter (\<lambda>c. c \<notin> set vc) cmds else orders_at os r')"
  by (induction cmds arbitrary: os) (auto simp: orders_at_assign)

lemma fold_append_missing_keys:
  "r \<in> fst ` set os \<Longrightarrow>
   map fst (fold (\<lambda>c m. if c \<notin> set vc then orders_assign m r (orders_at m r @ [c]) else m) cmds os) = map fst os"
proof (induction cmds arbitrary: os)
  case Nil
  then show ?case by simp
next
  case (Cons c cmds)
  have "map fst (orders_assign os r v) = map fst os" for v
    using Cons.prems by (simp add: keys_assign)
  moreover have "r \<in> fst ` set (orders_assign os r v)" for v
    using Cons.prems keys_assign[of os r v] by (metis list.set_map)
  ultimately show ?case
    using Cons by simp
qed

lemma append_missing_at:
  "orders_at (append_missing os r cmds) r' =
     (if r' = r then orders_at os r @ filter (\<lambda>c. c \<notin> set (orders_at os r)) cmds else orders_at os r')"
  by (simp add: append_missing_def Let_def fold_append_missing_at)

lemma append_missing_keys:
  "r \<in> fst ` set os \<Longrightarrow> map fst (append_missing os r cmds) = map fst os"
  by (simp add: append_missing_def Let_def fold_append_missing_keys)

lemma extend_first_keys:
  "r0 \<in> fst ` set os \<Longrightarrow> distinct (map fst os @ rs) \<Longrightarrow>
   map fst (extend_first vec r0 rs os) = map fst os @ rs"
proof (induction rs arbitrary: os)
  case Nil
  then show ?case by simp
next
  case (Cons ri rs)
  let ?os1 = "orders_assign os ri (vec ri)"
  let ?os2 = "append_missing ?os1 r0 (vec ri)"
  have ri: "ri \<notin> fst ` set os" using Cons.prems(2) by auto
  have k1: "map fst ?os1 = map fst os @ [ri]" using ri by (simp add: keys_assign)
  have r01: "r0 \<in> fst ` set ?os1"
    using Cons.prems(1) k1 by (metis UnCI list.set_map set_append)
  have k2: "map fst ?os2 = map fst os @ [ri]" using r01 k1 by (simp add: append_missing_keys)
  have r02: "r0 \<in> fst ` set ?os2"
    using Cons.prems(1) k2 by (metis UnCI list.set_map set_append)
  have "map fst (extend_first vec r0 rs ?os2) = map fst ?os2 @ rs"
    using r02 k2 Cons.prems(2) by (intro Cons.IH) simp_all
  then show ?case using k2 by simp
qed

lemma extend_first_at:
  "r0 \<notin> set rs \<Longrightarrow> distinct rs \<Longrightarrow>
   orders_at (extend_first vec r0 rs os) r =
     (if r = r0 then union_extend vec (orders_at os r0) rs
      else if r \<in> set rs then vec r else orders_at os r)"
proof (induction rs arbitrary: os)
  case Nil
  then show ?case by simp
next
  case (Cons ri rs)
  let ?os2 = "append_missing (orders_assign os ri (vec ri)) r0 (vec ri)"
  have ne: "ri \<noteq> r0" using Cons.prems(1) by auto
  have a0: "orders_at ?os2 r0 = orders_at os r0 @ filter (\<lambda>c. c \<notin> set (orders_at os r0)) (vec ri)"
    using ne by (simp add: append_missing_at orders_at_assign)
  have a: "orders_at ?os2 r = (if r = ri then vec ri else orders_at os r)" if "r \<noteq> r0"
    using that by (simp add: append_missing_at orders_at_assign)
  have "orders_at (extend_first vec r0 rs ?os2) r =
     (if r = r0 then union_extend vec (orders_at ?os2 r0) rs
      else if r \<in> set rs then vec r else orders_at ?os2 r)"
    using Cons.prems by (intro Cons.IH) simp_all
  then show ?case
    using a0 a Cons.prems by auto
qed

lemma extend_others_keys:
  "set rs \<subseteq> fst ` set os \<Longrightarrow> map fst (extend_others oh rs os) = map fst os"
proof (induction rs arbitrary: os)
  case Nil
  then show ?case by simp
next
  case (Cons rj rs)
  have k: "map fst (append_missing os rj oh) = map fst os"
    using Cons.prems by (simp add: append_missing_keys)
  then have "fst ` set (append_missing os rj oh) = fst ` set os"
    by (metis list.set_map)
  then show ?case using Cons k by simp
qed

lemma extend_others_at:
  "distinct rs \<Longrightarrow>
   orders_at (extend_others oh rs os) r =
     (if r \<in> set rs then orders_at os r @ filter (\<lambda>c. c \<notin> set (orders_at os r)) oh
      else orders_at os r)"
proof (induction rs arbitrary: os)
  case Nil
  then show ?case by simp
next
  case (Cons rj rs)
  have "orders_at (extend_others oh rs (append_missing os rj oh)) r =
     (if r \<in> set rs then orders_at (append_missing os rj oh) r
          @ filter (\<lambda>c. c \<notin> set (orders_at (append_missing os rj oh) r)) oh
      else orders_at (append_missing os rj oh) r)"
    using Cons.prems by (intro Cons.IH) simp
  then show ?case
    using Cons.prems by (auto simp: append_missing_at)
qed

lemma set_union_extend:
  "set (union_extend vec acc rs) = set acc \<union> (\<Union>r\<in>set rs. set (vec r))"
  by (induction rs arbitrary: acc) auto

lemma distinct_union_extend:
  "distinct acc \<Longrightarrow> \<forall>r\<in>set rs. distinct (vec r) \<Longrightarrow> distinct (union_extend vec acc rs)"
proof (induction rs arbitrary: acc)
  case Nil
  then show ?case by simp
next
  case (Cons ri rs)
  have "distinct (acc @ filter (\<lambda>c. c \<notin> set acc) (vec ri))"
    using Cons.prems by auto
  then show ?case using Cons by simp
qed

lemma union_extend_prefix: "\<exists>ext. union_extend vec acc rs = acc @ ext"
proof (induction rs arbitrary: acc)
  case Nil
  then show ?case by simp
next
  case (Cons ri rs)
  obtain ext where "union_extend vec (acc @ filter (\<lambda>c. c \<notin> set acc) (vec ri)) rs
                    = (acc @ filter (\<lambda>c. c \<notin> set acc) (vec ri)) @ ext"
    using Cons.IH by blast
  then show ?case by simp
qed

lemma orders_at_entry: "distinct (map fst os) \<Longrightarrow> e \<in> set os \<Longrightarrow> orders_at os (fst e) = snd e"
  by (induction os) (auto simp: rev_image_eqI)

lemma fair_propose_shape:
  assumes "distinct (r0 # rs)"
  shows "map fst (fair_propose (r0 # rs) vec) = r0 # rs"
    and "orders_at (fair_propose (r0 # rs) vec) r0 = union_extend vec (vec r0) rs"
    and "rj \<in> set rs \<Longrightarrow> orders_at (fair_propose (r0 # rs) vec) rj =
           vec rj @ filter (\<lambda>c. c \<notin> set (vec rj)) (union_extend vec (vec r0) rs)"
proof -
  let ?os = "extend_first vec r0 rs (orders_assign [] r0 (vec r0))"
  have r0: "r0 \<notin> set rs" and d: "distinct rs" using assms by auto
  have k: "map fst ?os = r0 # rs"
    using extend_first_keys[of r0 "orders_assign [] r0 (vec r0)" rs vec] assms by simp
  have at: "orders_at ?os r = (if r = r0 then union_extend vec (vec r0) rs
                               else if r \<in> set rs then vec r else [])" for r
    using extend_first_at[OF r0 d, of vec "orders_assign [] r0 (vec r0)" r] by simp
  have sub: "set rs \<subseteq> fst ` set ?os"
    using k by (metis list.set_map set_subset_Cons)
  have fp: "fair_propose (r0 # rs) vec = extend_others (orders_at ?os r0) rs ?os"
    by (simp add: fair_propose_def Let_def)
  show "map fst (fair_propose (r0 # rs) vec) = r0 # rs"
    using extend_others_keys[OF sub] k fp by simp
  show "orders_at (fair_propose (r0 # rs) vec) r0 = union_extend vec (vec r0) rs"
    using extend_others_at[OF d, of "orders_at ?os r0" ?os r0] r0 at fp by simp
  show "orders_at (fair_propose (r0 # rs) vec) rj =
           vec rj @ filter (\<lambda>c. c \<notin> set (vec rj)) (union_extend vec (vec r0) rs)"
    if "rj \<in> set rs"
    using extend_others_at[OF d, of "orders_at ?os r0" ?os rj] r0 at that fp by auto
qed

text \<open>
  C7 as stated fails: a contributed sequence that repeats a command keeps the repetition,
  so the returned sequences need not be permutations of one set. With the cache
  \<open>{0: [1], 1: [1, 1]}\<close> the result is \<open>{0: [1], 1: [1, 1]}\<close>.
\<close>

theorem fair_propose_permutation_counterexample:
  "fair_propose [0, 1] repeating_cache = [(0, [1]), (1, [1, 1])] \<and>
   \<not> permutations_of_one_set (fair_propose [0, 1] repeating_cache)"
  by (simp add: fair_propose_def append_missing_def permutations_of_one_set_def commands_of_def
      repeating_cache_def Let_def)

text \<open>
  C7, amended: after \<^verbatim>\<open>fair_propose\<close> runs on a cache with at least one contributing replica
  (the replicas being distinct), the returned container has one sequence per replica, and
  every sequence holds the same set of commands, the union of all contributed commands.
  The first replica's sequence is its own, extended in encounter order with every
  command of the other sequences it did not hold; every other replica's sequence is its
  own, extended in the first replica's final order with the commands it was missing.
  The sequences are permutations of that one set whenever no contributed sequence
  repeats a command.
\<close>

theorem fair_propose_union:
  assumes "replicas = r0 # rs" and "distinct replicas"
  shows "distinct (map fst (fair_propose replicas vec)) \<and>
         fst ` set (fair_propose replicas vec) = set replicas \<and>
         (\<exists>ext. orders_at (fair_propose replicas vec) r0 = vec r0 @ ext) \<and>
         orders_at (fair_propose replicas vec) r0 = union_extend vec (vec r0) rs \<and>
         (\<forall>rj\<in>set rs. orders_at (fair_propose replicas vec) rj =
            vec rj @ filter (\<lambda>c. c \<notin> set (vec rj)) (orders_at (fair_propose replicas vec) r0)) \<and>
         (\<forall>e\<in>set (fair_propose replicas vec). set (snd e) = (\<Union>r\<in>set replicas. set (vec r))) \<and>
         ((\<forall>r\<in>set replicas. distinct (vec r)) \<longrightarrow> permutations_of_one_set (fair_propose replicas vec))"
proof -
  let ?R = "fair_propose replicas vec"
  let ?U = "union_extend vec (vec r0) rs"
  have d: "distinct (r0 # rs)" using assms by simp
  have k: "map fst ?R = replicas"
    using fair_propose_shape(1)[OF d] assms(1) by simp
  have a0: "orders_at ?R r0 = ?U"
    using fair_propose_shape(2)[OF d] assms(1) by simp
  have aj: "orders_at ?R rj = vec rj @ filter (\<lambda>c. c \<notin> set (vec rj)) ?U" if "rj \<in> set rs" for rj
    using fair_propose_shape(3)[OF d that] assms(1) by simp
  have setU: "set ?U = (\<Union>r\<in>set replicas. set (vec r))"
    using assms(1) by (simp add: set_union_extend)
  have entry: "snd e = orders_at ?R (fst e) \<and> fst e \<in> set replicas" if "e \<in> set ?R" for e
    using that k assms(2) orders_at_entry[of ?R e] by (metis image_eqI list.set_map)
  have sets: "set (orders_at ?R r) = (\<Union>r\<in>set replicas. set (vec r))" if "r \<in> set replicas" for r
  proof (cases "r = r0")
    case True
    then show ?thesis using a0 setU by simp
  next
    case False
    then have "r \<in> set rs" using that assms(1) by simp
    then show ?thesis using aj[of r] setU that by auto
  qed
  have all_sets: "\<forall>e\<in>set ?R. set (snd e) = (\<Union>r\<in>set replicas. set (vec r))"
    using entry sets by simp
  have cmds: "commands_of ?R = (\<Union>r\<in>set replicas. set (vec r))"
  proof -
    have "?R \<noteq> []" using k assms(1) by auto
    then show ?thesis using all_sets unfolding commands_of_def by (cases ?R) auto
  qed
  have perm: "permutations_of_one_set ?R" if dv: "\<forall>r\<in>set replicas. distinct (vec r)"
  proof -
    have dU: "distinct ?U" using dv assms(1) by (intro distinct_union_extend) simp_all
    have "distinct (orders_at ?R r)" if "r \<in> set replicas" for r
    proof (cases "r = r0")
      case True
      then show ?thesis using a0 dU by simp
    next
      case False
      then have "r \<in> set rs" using that assms(1) by simp
      then show ?thesis using aj[of r] dU dv that by auto
    qed
    then show ?thesis
      unfolding permutations_of_one_set_def list_all_iff using entry all_sets cmds by simp
  qed
  have keys: "distinct (map fst ?R) \<and> fst ` set ?R = set replicas"
    using k assms(2) by (metis list.set_map)
  show ?thesis
    using keys a0 aj all_sets perm union_extend_prefix[of vec "vec r0" rs] by simp
qed

theorem fair_propose_union_witness:
  "distinct [0 :: replica_id, 1, 2] \<and>
   fair_propose [0, 1, 2] s6_cache = [(0, [2, 3]), (1, [2, 3]), (2, [3, 2])] \<and>
   permutations_of_one_set (fair_propose [0, 1, 2] s6_cache)"
proof -
  have d: "distinct [0 :: replica_id, 1, 2]" by simp
  have v: "\<forall>r\<in>set [0 :: replica_id, 1, 2]. distinct (s6_cache r)"
    by (simp add: s6_cache_def)
  have e: "fair_propose [0, 1, 2] s6_cache = [(0, [2, 3]), (1, [2, 3]), (2, [3, 2])]"
    by (simp add: fair_propose_def append_missing_def s6_cache_def Let_def)
  have p: "permutations_of_one_set (fair_propose [0, 1, 2] s6_cache)"
    using fair_propose_union[of "[0, 1, 2]" 0 "[1, 2]" s6_cache] d v by blast
  show ?thesis
    by (intro conjI) (rule d, rule e, rule p)
qed

subsection \<open>Votes\<close>

lemma on_receive_vote_late:
  assumes "get_delivered_blk s (blk_hash v) = Inr b"
    and "nmajority s \<le> fcard (voted (heap s b)) \<or> voter v |\<in>| voted (heap s b)"
  shows "on_receive_vote s v = Inr s"
  using assms by (auto simp: on_receive_vote_def Let_def)

lemma on_receive_vote_part:
  assumes "get_delivered_blk s (blk_hash v) = Inr b"
    and "fcard (voted (heap s b)) < nmajority s" "voter v |\<notin>| voted (heap s b)"
    and "fcard (voted (heap s b)) + 1 \<noteq> nmajority s"
  shows "\<exists>s'. on_receive_vote s v = Inr s' \<and>
           voted (heap s' b) = finsert (voter v) (voted (heap s b)) \<and>
           computed s' b = computed s b \<and> hqc s' = hqc s \<and>
           qc_finished s' = qc_finished s \<and> qc_waiting s' = qc_waiting s \<and>
           nmajority s' = nmajority s \<and> storage s' = storage s \<and>
           (\<forall>b'. b' \<noteq> b \<longrightarrow> heap s' b' = heap s b') \<and> delivered (heap s' b) = delivered (heap s b) \<and>
           height (heap s' b) = height (heap s b)"
  using assms
  by (auto simp: on_receive_vote_def Let_def set_blk_def computed_def add_part_def
      create_quorum_cert_def split: option.splits)

lemma on_receive_vote_quorum:
  assumes "get_delivered_blk s (blk_hash v) = Inr b"
    and "voter v |\<notin>| voted (heap s b)"
    and "fcard (voted (heap s b)) + 1 = nmajority s"
  shows "\<exists>s' c. on_receive_vote s v = Inr s' \<and>
           voted (heap s' b) = finsert (voter v) (voted (heap s b)) \<and>
           computed s' b = computed s b + 1 \<and>
           self_qc (heap s' b) = Some c \<and>
           hqc s' = (if height (heap s b) > height (heap s (fst (hqc s))) then (b, c) else hqc s) \<and>
           qc_finished s' = (if b \<in> qc_waiting s then qc_finished s @ [b] else qc_finished s) \<and>
           qc_waiting s' = qc_waiting s - {b} \<and>
           nmajority s' = nmajority s \<and> storage s' = storage s \<and>
           (\<forall>b'. b' \<noteq> b \<longrightarrow> heap s' b' = heap s b') \<and> delivered (heap s' b) = delivered (heap s b) \<and>
           height (heap s' b) = height (heap s b)"
  using assms
  by (auto simp: on_receive_vote_def Let_def set_blk_def computed_def add_part_def compute_def
      create_quorum_cert_def update_hqc_def on_hqc_update_def on_qc_finish_def split: option.splits)


lemma on_receive_vote_step:
  "nmajority (state_after (on_receive_vote s v)) = nmajority s \<and>
   fcard (voted (heap s b)) \<le> fcard (voted (heap (state_after (on_receive_vote s v)) b)) \<and>
   computed (state_after (on_receive_vote s v)) b =
     computed s b + (if fcard (voted (heap s b)) < nmajority s \<and>
                        nmajority s \<le> fcard (voted (heap (state_after (on_receive_vote s v)) b))
                     then 1 else 0)"
proof (cases "get_delivered_blk s (blk_hash v)")
  case (Inl e)
  then show ?thesis by (simp add: on_receive_vote_def state_after_def)
next
  case (Inr b')
  consider (late) "nmajority s \<le> fcard (voted (heap s b')) \<or> voter v |\<in>| voted (heap s b')"
    | (part) "fcard (voted (heap s b')) < nmajority s" "voter v |\<notin>| voted (heap s b')"
        "fcard (voted (heap s b')) + 1 \<noteq> nmajority s"
    | (quorum) "voter v |\<notin>| voted (heap s b')" "fcard (voted (heap s b')) + 1 = nmajority s"
    by linarith
  then show ?thesis
  proof cases
    case late
    then show ?thesis
      using on_receive_vote_late[OF Inr] by (simp add: state_after_def)
  next
    case part
    obtain s' where s': "on_receive_vote s v = Inr s'"
      "voted (heap s' b') = finsert (voter v) (voted (heap s b'))"
      "computed s' b' = computed s b'" "nmajority s' = nmajority s"
      "\<forall>x. x \<noteq> b' \<longrightarrow> heap s' x = heap s x"
      using on_receive_vote_part[OF Inr part] by blast
    show ?thesis
    proof (cases "b = b'")
      case True
      then show ?thesis
        using s' part by (simp add: state_after_def fcard_finsert_disjoint)
    next
      case False
      then show ?thesis
        using s' by (simp add: state_after_def computed_def)
    qed
  next
    case quorum
    obtain s' where s': "on_receive_vote s v = Inr s'"
      "voted (heap s' b') = finsert (voter v) (voted (heap s b'))"
      "computed s' b' = computed s b' + 1" "nmajority s' = nmajority s"
      "\<forall>x. x \<noteq> b' \<longrightarrow> heap s' x = heap s x"
      using on_receive_vote_quorum[OF Inr quorum] by blast
    show ?thesis
    proof (cases "b = b'")
      case True
      then show ?thesis
        using s' quorum by (simp add: state_after_def fcard_finsert_disjoint)
    next
      case False
      then show ?thesis
        using s' by (simp add: state_after_def computed_def)
    qed
  qed
qed

lemma receive_votes_run:
  "nmajority (receive_votes s vs) = nmajority s \<and>
   fcard (voted (heap s b)) \<le> fcard (voted (heap (receive_votes s vs) b)) \<and>
   computed (receive_votes s vs) b =
     computed s b + (if fcard (voted (heap s b)) < nmajority s \<and>
                        nmajority s \<le> fcard (voted (heap (receive_votes s vs) b))
                     then 1 else 0)"
proof (induction vs arbitrary: s)
  case Nil
  then show ?case by simp
next
  case (Cons v vs)
  let ?s1 = "state_after (on_receive_vote s v)"
  note st = on_receive_vote_step[of s v b]
  note ih = Cons.IH[of ?s1]
  show ?case
    using st ih by (auto split: if_splits)
qed

lemma on_receive_vote_records:
  assumes "get_delivered_blk s (blk_hash v) = Inr b"
    and "fcard (voted (heap s b)) < nmajority s" "voter v |\<notin>| voted (heap s b)"
  shows "\<exists>s' c. on_receive_vote s v = Inr s' \<and>
           voted (heap s' b) = finsert (voter v) (voted (heap s b)) \<and>
           self_qc (heap s' b) = Some c \<and>
           qc_obj_hash c = (case self_qc (heap s b) of None \<Rightarrow> hash (heap s b) | Some c0 \<Rightarrow> qc_obj_hash c0) \<and>
           qc_parts c = (case self_qc (heap s b) of None \<Rightarrow> [] | Some c0 \<Rightarrow> qc_parts c0) @ [voter v]"
  using assms
  by (auto simp: on_receive_vote_def Let_def set_blk_def add_part_def compute_def
      create_quorum_cert_def update_hqc_def on_hqc_update_def on_qc_finish_def split: option.splits)

text \<open>
  C8: a vote for a delivered block \<open>b\<close> is always handled without an error. A vote of a new
  voter that arrives below the quorum is recorded: the voter joins the voters of \<open>b\<close> and
  its part is added to the certificate of \<open>b\<close> (created for the hash of \<open>b\<close> when there was
  none). The call computes the certificate (once more than before), passes the block and
  that certificate to \<^verbatim>\<open>update_hqc\<close> and resolves the waiter of \<open>b\<close> exactly when the number of
  recorded voters reaches \<open>n_majority\<close> with this vote; otherwise none of these happens. A
  vote that arrives when the quorum is already there, or from a voter already recorded,
  leaves the state as it is. Over any run of votes \<^verbatim>\<open>compute()\<close> runs on the certificate of
  \<open>b\<close> once if the voters of \<open>b\<close> reach \<open>n_majority\<close> during the run, and not at all otherwise.
\<close>

theorem quorum_finalized_once:
  "(get_delivered_blk s (blk_hash v) = Inr b \<longrightarrow>
     (\<exists>s'. on_receive_vote s v = Inr s' \<and>
        (fcard (voted (heap s b)) < nmajority s \<and> voter v |\<notin>| voted (heap s b) \<longrightarrow>
           voted (heap s' b) = finsert (voter v) (voted (heap s b)) \<and>
           (\<exists>c. self_qc (heap s' b) = Some c \<and>
              qc_obj_hash c = (case self_qc (heap s b) of None \<Rightarrow> hash (heap s b) | Some c0 \<Rightarrow> qc_obj_hash c0) \<and>
              qc_parts c = (case self_qc (heap s b) of None \<Rightarrow> [] | Some c0 \<Rightarrow> qc_parts c0) @ [voter v])) \<and>
        (if fcard (voted (heap s b)) < nmajority s \<and> fcard (voted (heap s' b)) = nmajority s
         then computed s' b = computed s b + 1 \<and>
              (\<exists>c. self_qc (heap s' b) = Some c \<and> qc_computed c = computed s b + 1 \<and>
                 hqc s' = (if height (heap s b) > height (heap s (fst (hqc s))) then (b, c) else hqc s)) \<and>
              qc_finished s' = (if b \<in> qc_waiting s then qc_finished s @ [b] else qc_finished s) \<and>
              b \<notin> qc_waiting s'
         else computed s' b = computed s b \<and> hqc s' = hqc s \<and>
              qc_finished s' = qc_finished s \<and> qc_waiting s' = qc_waiting s) \<and>
        (nmajority s \<le> fcard (voted (heap s b)) \<or> voter v |\<in>| voted (heap s b) \<longrightarrow> s' = s))) \<and>
   computed (receive_votes s vs) b =
     computed s b + (if fcard (voted (heap s b)) < nmajority s \<and>
                        nmajority s \<le> fcard (voted (heap (receive_votes s vs) b))
                     then 1 else 0)"
proof -
  have one: "\<exists>s'. on_receive_vote s v = Inr s' \<and>
        (fcard (voted (heap s b)) < nmajority s \<and> voter v |\<notin>| voted (heap s b) \<longrightarrow>
           voted (heap s' b) = finsert (voter v) (voted (heap s b)) \<and>
           (\<exists>c. self_qc (heap s' b) = Some c \<and>
              qc_obj_hash c = (case self_qc (heap s b) of None \<Rightarrow> hash (heap s b) | Some c0 \<Rightarrow> qc_obj_hash c0) \<and>
              qc_parts c = (case self_qc (heap s b) of None \<Rightarrow> [] | Some c0 \<Rightarrow> qc_parts c0) @ [voter v])) \<and>
        (if fcard (voted (heap s b)) < nmajority s \<and> fcard (voted (heap s' b)) = nmajority s
         then computed s' b = computed s b + 1 \<and>
              (\<exists>c. self_qc (heap s' b) = Some c \<and> qc_computed c = computed s b + 1 \<and>
                 hqc s' = (if height (heap s b) > height (heap s (fst (hqc s))) then (b, c) else hqc s)) \<and>
              qc_finished s' = (if b \<in> qc_waiting s then qc_finished s @ [b] else qc_finished s) \<and>
              b \<notin> qc_waiting s'
         else computed s' b = computed s b \<and> hqc s' = hqc s \<and>
              qc_finished s' = qc_finished s \<and> qc_waiting s' = qc_waiting s) \<and>
        (nmajority s \<le> fcard (voted (heap s b)) \<or> voter v |\<in>| voted (heap s b) \<longrightarrow> s' = s)"
    if g: "get_delivered_blk s (blk_hash v) = Inr b"
  proof -
    consider (late) "nmajority s \<le> fcard (voted (heap s b)) \<or> voter v |\<in>| voted (heap s b)"
      | (part) "fcard (voted (heap s b)) < nmajority s" "voter v |\<notin>| voted (heap s b)"
          "fcard (voted (heap s b)) + 1 \<noteq> nmajority s"
      | (quorum) "fcard (voted (heap s b)) < nmajority s" "voter v |\<notin>| voted (heap s b)"
          "fcard (voted (heap s b)) + 1 = nmajority s"
      by linarith
    then show ?thesis
    proof cases
      case late
      then show ?thesis
        using on_receive_vote_late[OF g] by auto
    next
      case part
      obtain s' where s': "on_receive_vote s v = Inr s'"
        "voted (heap s' b) = finsert (voter v) (voted (heap s b))"
        "computed s' b = computed s b" "hqc s' = hqc s"
        "qc_finished s' = qc_finished s" "qc_waiting s' = qc_waiting s"
        using on_receive_vote_part[OF g part] by blast
      obtain t c where t: "on_receive_vote s v = Inr t" "self_qc (heap t b) = Some c"
        "qc_obj_hash c = (case self_qc (heap s b) of None \<Rightarrow> hash (heap s b) | Some c0 \<Rightarrow> qc_obj_hash c0)"
        "qc_parts c = (case self_qc (heap s b) of None \<Rightarrow> [] | Some c0 \<Rightarrow> qc_parts c0) @ [voter v]"
        using on_receive_vote_records[OF g part(1,2)] by blast
      have ts: "t = s'" using t(1) s'(1) by simp
      have n: "fcard (voted (heap s' b)) \<noteq> nmajority s"
        using s'(2) part by (simp add: fcard_finsert_disjoint)
      show ?thesis
        using s' t(2,3,4) n part(1,2) unfolding ts by auto
    next
      case quorum
      obtain s' c where s': "on_receive_vote s v = Inr s'"
        "voted (heap s' b) = finsert (voter v) (voted (heap s b))"
        "computed s' b = computed s b + 1" "self_qc (heap s' b) = Some c"
        "hqc s' = (if height (heap s b) > height (heap s (fst (hqc s))) then (b, c) else hqc s)"
        "qc_finished s' = (if b \<in> qc_waiting s then qc_finished s @ [b] else qc_finished s)"
        "qc_waiting s' = qc_waiting s - {b}"
        using on_receive_vote_quorum[OF g quorum(2,3)] by blast
      obtain t d where t: "on_receive_vote s v = Inr t" "self_qc (heap t b) = Some d"
        "qc_obj_hash d = (case self_qc (heap s b) of None \<Rightarrow> hash (heap s b) | Some c0 \<Rightarrow> qc_obj_hash c0)"
        "qc_parts d = (case self_qc (heap s b) of None \<Rightarrow> [] | Some c0 \<Rightarrow> qc_parts c0) @ [voter v]"
        using on_receive_vote_records[OF g quorum(1,2)] by blast
      have ts: "t = s'" using t(1) s'(1) by simp
      have dc: "d = c" using t(2) s'(4) unfolding ts by simp
      have "qc_computed c = computed s b + 1"
        using s'(3,4) by (simp add: computed_def)
      then show ?thesis
        using s' t(3,4) quorum unfolding dc by (simp add: fcard_finsert_disjoint)
    qed
  qed
  show ?thesis
    using one receive_votes_run[of s vs b] by blast
qed

lemma get_delivered_blk_frame:
  assumes "get_delivered_blk s h = Inr b" "storage s' = storage s"
    "delivered (heap s' b) = delivered (heap s b)"
  shows "get_delivered_blk s' h = Inr b"
  using assms by (auto simp: get_delivered_blk_def split: option.splits if_splits)

theorem quorum_finalized_once_witness:
  "get_delivered_blk s5_core 4 = Inr 4 \<and> voted (heap s5_core 4) = {||} \<and> nmajority s5_core = 3 \<and>
   voted (heap (receive_votes s5_core [\<lparr>voter = 1, blk_hash = 4\<rparr>]) 4) = {|1|} \<and>
   computed (receive_votes s5_core [\<lparr>voter = 1, blk_hash = 4\<rparr>, \<lparr>voter = 2, blk_hash = 4\<rparr>]) 4 = 0 \<and>
   computed (receive_votes s5_core
      [\<lparr>voter = 1, blk_hash = 4\<rparr>, \<lparr>voter = 2, blk_hash = 4\<rparr>, \<lparr>voter = 3, blk_hash = 4\<rparr>]) 4 = 1 \<and>
   fst (hqc (receive_votes s5_core
      [\<lparr>voter = 1, blk_hash = 4\<rparr>, \<lparr>voter = 2, blk_hash = 4\<rparr>, \<lparr>voter = 3, blk_hash = 4\<rparr>])) = 4 \<and>
   qc_finished (receive_votes s5_core
      [\<lparr>voter = 1, blk_hash = 4\<rparr>, \<lparr>voter = 2, blk_hash = 4\<rparr>, \<lparr>voter = 3, blk_hash = 4\<rparr>]) = [4] \<and>
   receive_votes s5_core
      [\<lparr>voter = 1, blk_hash = 4\<rparr>, \<lparr>voter = 2, blk_hash = 4\<rparr>, \<lparr>voter = 3, blk_hash = 4\<rparr>,
       \<lparr>voter = 0, blk_hash = 4\<rparr>] =
     receive_votes s5_core
      [\<lparr>voter = 1, blk_hash = 4\<rparr>, \<lparr>voter = 2, blk_hash = 4\<rparr>, \<lparr>voter = 3, blk_hash = 4\<rparr>] \<and>
   receive_votes s5_core [\<lparr>voter = 1, blk_hash = 4\<rparr>, \<lparr>voter = 1, blk_hash = 4\<rparr>] =
     receive_votes s5_core [\<lparr>voter = 1, blk_hash = 4\<rparr>]"
proof -
  let ?v0 = "\<lparr>voter = 0, blk_hash = 4\<rparr>" and ?v1 = "\<lparr>voter = 1, blk_hash = 4\<rparr>"
  let ?v2 = "\<lparr>voter = 2, blk_hash = 4\<rparr>" and ?v3 = "\<lparr>voter = 3, blk_hash = 4\<rparr>"
  have g0: "get_delivered_blk s5_core (blk_hash ?v1) = Inr 4"
    by (simp add: get_delivered_blk_def s5_core_def ex_core_def ex_heap_def ex_blk_def)
  have n0: "voted (heap s5_core 4) = {||}" "nmajority s5_core = 3" "computed s5_core 4 = 0"
    "qc_waiting s5_core = {4}" "qc_finished s5_core = []" "fst (hqc s5_core) = 0"
    "height (heap s5_core 0) < height (heap s5_core 4)"
    by (simp_all add: s5_core_def ex_core_def ex_heap_def ex_blk_def computed_def)
  \<comment> \<open>the first vote\<close>
  have h1: "fcard (voted (heap s5_core 4)) < nmajority s5_core" "voter ?v1 |\<notin>| voted (heap s5_core 4)"
    "fcard (voted (heap s5_core 4)) + 1 \<noteq> nmajority s5_core"
    using n0(1,2) by (simp_all add: fcard_fempty)
  obtain s1 where s1: "on_receive_vote s5_core ?v1 = Inr s1"
    "voted (heap s1 4) = finsert (voter ?v1) (voted (heap s5_core 4))"
    "computed s1 4 = computed s5_core 4" "hqc s1 = hqc s5_core"
    "qc_finished s1 = qc_finished s5_core" "qc_waiting s1 = qc_waiting s5_core"
    "nmajority s1 = nmajority s5_core" "storage s1 = storage s5_core"
    "\<forall>b'. b' \<noteq> 4 \<longrightarrow> heap s1 b' = heap s5_core b'"
    "delivered (heap s1 4) = delivered (heap s5_core 4)"
    "height (heap s1 4) = height (heap s5_core 4)"
    using on_receive_vote_part[OF g0 h1] by blast
  obtain t where t: "on_receive_vote s5_core ?v1 = Inr t"
    "fcard (voted (heap s5_core 4)) < nmajority s5_core \<and> voter ?v1 |\<notin>| voted (heap s5_core 4) \<longrightarrow>
       voted (heap t 4) = finsert (voter ?v1) (voted (heap s5_core 4))"
    using quorum_finalized_once[of s5_core ?v1 4 "[]"] g0 by blast
  have rec1: "voted (heap t 4) = {|1|}"
    using t(2) h1(1,2) n0(1) by simp
  have ts: "t = s1" using t(1) s1(1) by simp
  have v1: "voted (heap s1 4) = {|1|}" using rec1 unfolding ts .
  \<comment> \<open>the second vote\<close>
  have g1: "get_delivered_blk s1 (blk_hash ?v2) = Inr 4"
    using get_delivered_blk_frame[OF _ s1(8,10)] g0 by simp
  have h2: "fcard (voted (heap s1 4)) < nmajority s1" "voter ?v2 |\<notin>| voted (heap s1 4)"
    "fcard (voted (heap s1 4)) + 1 \<noteq> nmajority s1"
    using v1 s1(7) n0(2) by (simp_all add: fcard_fempty fcard_finsert_if)
  obtain s2 where s2: "on_receive_vote s1 ?v2 = Inr s2"
    "voted (heap s2 4) = finsert (voter ?v2) (voted (heap s1 4))"
    "computed s2 4 = computed s1 4" "hqc s2 = hqc s1"
    "qc_finished s2 = qc_finished s1" "qc_waiting s2 = qc_waiting s1"
    "nmajority s2 = nmajority s1" "storage s2 = storage s1"
    "\<forall>b'. b' \<noteq> 4 \<longrightarrow> heap s2 b' = heap s1 b'"
    "delivered (heap s2 4) = delivered (heap s1 4)"
    "height (heap s2 4) = height (heap s1 4)"
    using on_receive_vote_part[OF g1 h2] by blast
  have v2: "voted (heap s2 4) = {|2, 1|}" using s2(2) v1 by simp
  have c2: "computed s2 4 = 0" using s2(3) s1(3) n0(3) by simp
  \<comment> \<open>the third vote\<close>
  have g2: "get_delivered_blk s2 (blk_hash ?v3) = Inr 4"
    using get_delivered_blk_frame[OF _ s2(8,10)] g1 by simp
  have h3: "voter ?v3 |\<notin>| voted (heap s2 4)" "fcard (voted (heap s2 4)) + 1 = nmajority s2"
    using v2 s2(7) s1(7) n0(2) by (simp_all add: fcard_fempty fcard_finsert_if)
  obtain s3 c where s3: "on_receive_vote s2 ?v3 = Inr s3"
    "voted (heap s3 4) = finsert (voter ?v3) (voted (heap s2 4))"
    "computed s3 4 = computed s2 4 + 1" "self_qc (heap s3 4) = Some c"
    "hqc s3 = (if height (heap s2 4) > height (heap s2 (fst (hqc s2))) then (4, c) else hqc s2)"
    "qc_finished s3 = (if 4 \<in> qc_waiting s2 then qc_finished s2 @ [4] else qc_finished s2)"
    "qc_waiting s3 = qc_waiting s2 - {4}"
    "nmajority s3 = nmajority s2" "storage s3 = storage s2"
    "\<forall>b'. b' \<noteq> 4 \<longrightarrow> heap s3 b' = heap s2 b'"
    "delivered (heap s3 4) = delivered (heap s2 4)"
    using on_receive_vote_quorum[OF g2 h3] by blast
  have hq: "fst (hqc s2) = 0" using s2(4) s1(4) n0(6) by simp
  have "heap s2 0 = heap s5_core 0" using s2(9) s1(9) by simp
  then have hh: "height (heap s2 (fst (hqc s2))) < height (heap s2 4)"
    unfolding hq using s2(11) s1(11) n0(7) by simp
  have q3: "fst (hqc s3) = 4" using s3(5) hh by simp
  have w3: "qc_finished s3 = [4]" using s3(6) s2(5,6) s1(5,6) n0(4,5) by simp
  have c3: "computed s3 4 = 1" using s3(3) c2 by simp
  have v3: "fcard (voted (heap s3 4)) = 3"
    using s3(2) v2 by (simp add: fcard_fempty fcard_finsert_if)
  \<comment> \<open>a late vote and a duplicate\<close>
  have g3: "get_delivered_blk s3 (blk_hash ?v0) = Inr 4"
    using get_delivered_blk_frame[OF _ s3(9,11)] g2 by simp
  have late: "on_receive_vote s3 ?v0 = Inr s3"
    using on_receive_vote_late[OF g3] v3 s3(8) s2(7) s1(7) n0(2) by simp
  have dup: "on_receive_vote s1 ?v1 = Inr s1"
    using on_receive_vote_late[of s1 ?v1 4] g1 v1 by simp
  have r1: "receive_votes s5_core [?v1] = s1"
    using s1(1) by (simp add: state_after_def)
  have r2: "receive_votes s5_core [?v1, ?v2] = s2"
    using s1(1) s2(1) by (simp add: state_after_def)
  have r3: "receive_votes s5_core [?v1, ?v2, ?v3] = s3"
    using s1(1) s2(1) s3(1) by (simp add: state_after_def)
  have r4: "receive_votes s5_core [?v1, ?v2, ?v3, ?v0] = s3"
    using s1(1) s2(1) s3(1) late by (simp add: state_after_def)
  have r5: "receive_votes s5_core [?v1, ?v1] = s1"
    using s1(1) dup by (simp add: state_after_def)
  have g: "get_delivered_blk s5_core 4 = Inr 4" using g0 by simp
  show ?thesis
    unfolding r1 r2 r3 r4 r5 using g n0(1,2) v1 c2 c3 q3 w3 by simp
qed

subsection \<open>What \<^verbatim>\<open>update\<close> changes\<close>

lemma update_frame_refl: "update_frame s s"
  by (simp add: update_frame_def)

lemma update_frame_trans: "update_frame s t \<Longrightarrow> update_frame t u \<Longrightarrow> update_frame s u"
  by (simp add: update_frame_def)

lemma update_frame_block:
  assumes "update_frame s t"
  shows "height (heap t b) = height (heap s b)" "parents (heap t b) = parents (heap s b)"
    "qc_ref (heap t b) = qc_ref (heap s b)" "hash (heap t b) = hash (heap s b)"
    "orders (heap t b) = orders (heap s b)" "delivered (heap t b) = delivered (heap s b)"
proof -
  have e: "(heap t b)\<lparr>decision := 0\<rparr> = (heap s b)\<lparr>decision := 0\<rparr>"
    using assms by (simp add: update_frame_def)
  show "height (heap t b) = height (heap s b)"
    using arg_cong[OF e, of height] by simp
  show "parents (heap t b) = parents (heap s b)"
    using arg_cong[OF e, of parents] by simp
  show "qc_ref (heap t b) = qc_ref (heap s b)"
    using arg_cong[OF e, of qc_ref] by simp
  show "hash (heap t b) = hash (heap s b)"
    using arg_cong[OF e, of hash] by simp
  show "orders (heap t b) = orders (heap s b)"
    using arg_cong[OF e, of orders] by simp
  show "delivered (heap t b) = delivered (heap s b)"
    using arg_cong[OF e, of delivered] by simp
qed

lemma heights_grow_refl: "heights_grow s s"
  by (simp add: heights_grow_def)

lemma heights_grow_trans: "heights_grow s t \<Longrightarrow> heights_grow t u \<Longrightarrow> heights_grow s u"
  by (auto simp: heights_grow_def)

lemma nothing_committed_refl: "nothing_committed s s"
  by (simp add: nothing_committed_def)

lemma nothing_committed_trans:
  "nothing_committed s t \<Longrightarrow> nothing_committed t u \<Longrightarrow> nothing_committed s u"
  by (simp add: nothing_committed_def)

lemma commit_walk_heights:
  assumes "commit_walk h low b q0 = Some y"
  shows "\<forall>q e. y = Inr (q, e) \<longrightarrow> (\<forall>x\<in>set q. x \<in> set q0 \<or> low < height (h x))"
proof (rule commit_walk.raw_induct[where P = "\<lambda>h low b q0 y.
         \<forall>q e. y = Inr (q, e) \<longrightarrow> (\<forall>x\<in>set q. x \<in> set q0 \<or> low < height (h x))", OF _ assms])
  fix walk :: "(blk_ref \<Rightarrow> block) \<Rightarrow> 32 word \<Rightarrow> blk_ref \<Rightarrow> blk_ref list \<Rightarrow> (error + blk_ref list \<times> blk_ref) option"
  fix h low b q0 y
  assume IH: "\<And>h low b q0 y. walk h low b q0 = Some y \<Longrightarrow>
                \<forall>q e. y = Inr (q, e) \<longrightarrow> (\<forall>x\<in>set q. x \<in> set q0 \<or> low < height (h x))"
    and body: "(if low < height (h b)
                then case parents (h b) of [] \<Rightarrow> Some (Inl Undefined)
                     | p # ps \<Rightarrow> walk h low p (q0 @ [b])
                else Some (Inr (q0, b))) = Some y"
  show "\<forall>q e. y = Inr (q, e) \<longrightarrow> (\<forall>x\<in>set q. x \<in> set q0 \<or> low < height (h x))"
  proof (cases "low < height (h b)")
    case False
    then show ?thesis using body by auto
  next
    case True
    show ?thesis
    proof (cases "parents (h b)")
      case Nil
      then show ?thesis using True body by auto
    next
      case (Cons p ps)
      then have "walk h low p (q0 @ [b]) = Some y" using True body by simp
      from IH[OF this] show ?thesis using True by auto
    qed
  qed
qed

lemma remove_seen_proposed_frame:
  assumes "remove_seen_proposed s nblk = r"
  shows "update_frame s (state_after r) \<and> heights_grow s (state_after r) \<and>
         nothing_committed s (state_after r) \<and> heap (state_after r) = heap s \<and>
         hqc (state_after r) = hqc s \<and> b_lock (state_after r) = b_lock s \<and>
         b_exec (state_after r) = b_exec s"
  using assms
  by (auto simp: remove_seen_proposed_def state_after_def update_frame_def heights_grow_def
      nothing_committed_def split: list.splits)

lemma update_hqc_frame:
  assumes "update_hqc s b q = r"
  shows "update_frame s (state_after r) \<and> heights_grow s (state_after r) \<and>
         nothing_committed s (state_after r) \<and> heap (state_after r) = heap s \<and>
         b_lock (state_after r) = b_lock s \<and> b_exec (state_after r) = b_exec s"
  using assms
  by (auto simp: update_hqc_def on_hqc_update_def state_after_def update_frame_def heights_grow_def
      nothing_committed_def split: option.splits if_splits)


lemma three_chain_frame:
  assumes "three_chain s nblk = r"
  shows "update_frame s (state_after (map_sum id fst r)) \<and>
         heights_grow s (state_after (map_sum id fst r)) \<and>
         nothing_committed s (state_after (map_sum id fst r)) \<and>
         heap (state_after (map_sum id fst r)) = heap s \<and>
         b_exec (state_after (map_sum id fst r)) = b_exec s"
proof -
  have *: "update_frame s t \<and> heights_grow s t \<and> nothing_committed s t \<and> heap t = heap s
           \<and> b_exec t = b_exec s \<Longrightarrow>
           update_frame s (if c then t\<lparr>b_lock := x\<rparr> else t) \<and>
           (c \<longrightarrow> height (heap s (b_lock t)) < height (heap s x)) \<longrightarrow>
           heights_grow s (if c then t\<lparr>b_lock := x\<rparr> else t)" for t c x
    by (auto simp: update_frame_def heights_grow_def)
  show ?thesis
  proof (cases "qc_ref (heap s nblk)")
    case None
    then show ?thesis using assms
      by (auto simp: three_chain_def state_after_def update_frame_refl heights_grow_refl nothing_committed_refl)
  next
    case (Some blk2)
    show ?thesis
    proof (cases "decision (heap s blk2) \<noteq> 0")
      case True
      then show ?thesis using assms Some
        by (auto simp: three_chain_def state_after_def update_frame_refl heights_grow_refl nothing_committed_refl)
    next
      case False
      note uh = update_hqc_frame[OF refl, of s blk2 "qc (heap s nblk)"]
      show ?thesis
      proof (cases "update_hqc s blk2 (qc (heap s nblk))")
        case (Inl f)
        then show ?thesis using assms Some False uh
          by (auto simp: three_chain_def)
      next
        case (Inr s1)
        then have s1: "update_frame s s1" "heights_grow s s1" "nothing_committed s s1"
          "heap s1 = heap s" "b_lock s1 = b_lock s" "b_exec s1 = b_exec s"
          using uh by (simp_all add: state_after_def)
        let ?s2 = "\<lambda>blk1. if height (heap s1 blk1) > height (heap s1 (b_lock s1))
                          then s1\<lparr>b_lock := blk1\<rparr> else s1"
        have s2: "update_frame s (?s2 blk1) \<and> heights_grow s (?s2 blk1) \<and>
                  nothing_committed s (?s2 blk1) \<and> heap (?s2 blk1) = heap s \<and>
                  b_exec (?s2 blk1) = b_exec s" for blk1
          using s1 by (auto simp: update_frame_def heights_grow_def nothing_committed_def)
        have "\<exists>t ob. (r = Inr (t, ob) \<or> (\<exists>e. r = Inl (e, t))) \<and> (t = s1 \<or> (\<exists>blk1. t = ?s2 blk1))"
          using assms Some False Inr
          by (auto simp: three_chain_def Let_def split: option.splits list.splits if_splits)
        then obtain t ob where t: "r = Inr (t, ob) \<or> (\<exists>e. r = Inl (e, t))"
          "t = s1 \<or> (\<exists>blk1. t = ?s2 blk1)" by blast
        have "update_frame s t \<and> heights_grow s t \<and> nothing_committed s t \<and> heap t = heap s \<and>
              b_exec t = b_exec s"
          using t(2) s1 s2 by auto
        moreover have "state_after (map_sum id fst r) = t"
          using t(1) by (auto simp: state_after_def)
        ultimately show ?thesis by simp
      qed
    qed
  qed
qed

lemma three_chain_linked:
  assumes "three_chain s nblk = Inr (t, Some blk)"
  shows "\<exists>blk2 blk1. linked s nblk blk2 blk1 blk"
proof -
  have h1: "update_hqc s b q = Inr s1 \<Longrightarrow> heap s1 = heap s" for b q s1
    using update_hqc_frame[OF refl, of s b q] by (simp add: state_after_def)
  show ?thesis
    using assms
    by (auto simp: three_chain_def linked_def Let_def dest!: h1
        split: option.splits list.splits if_splits sum.splits)
qed

lemma commit_block_frame:
  "update_frame s (commit_block s blk order) \<and> hqc (commit_block s blk order) = hqc s \<and>
   b_lock (commit_block s blk order) = b_lock s \<and> b_exec (commit_block s blk order) = blk"
  by (simp add: commit_block_def Let_def set_blk_def update_frame_def)

lemma commit_blocks_frame:
  "commit_blocks s bs = r \<Longrightarrow>
   update_frame s (state_after r) \<and> hqc (state_after r) = hqc s \<and>
   b_lock (state_after r) = b_lock s \<and>
   (b_exec (state_after r) = b_exec s \<or> b_exec (state_after r) \<in> set bs)"
proof (induction bs arbitrary: s r)
  case Nil
  then show ?case by (auto simp: state_after_def update_frame_refl)
next
  case (Cons blk rest)
  show ?case
  proof (cases "fair_finalize s blk")
    case (Inl e)
    then show ?thesis using Cons.prems by (auto simp: state_after_def update_frame_refl)
  next
    case (Inr order)
    show ?thesis
    proof (cases "order = [] \<and> orders (heap s blk) \<noteq> []")
      case True
      then show ?thesis using Cons.prems Inr by (auto simp: state_after_def update_frame_refl)
    next
      case False
      then have r: "commit_blocks (commit_block s blk order) rest = r"
        using Cons.prems Inr by auto
      note ih = Cons.IH[OF r]
      note cb = commit_block_frame[of s blk order]
      show ?thesis
        using ih cb update_frame_trans[of s "commit_block s blk order" "state_after r"] by auto
    qed
  qed
qed

lemma commit_frame:
  assumes "commit s blk = Some r"
  shows "update_frame s (state_after r) \<and> heights_grow s (state_after r)"
proof (cases "commit_walk (heap s) (height (heap s (b_exec s))) blk []")
  case None
  then show ?thesis using assms by (simp add: commit_def)
next
  case (Some y)
  show ?thesis
  proof (cases y)
    case (Inl e)
    then show ?thesis using assms Some
      by (auto simp: commit_def state_after_def update_frame_refl heights_grow_refl)
  next
    case (Inr qb)
    obtain q b where qb: "qb = (q, b)" by (cases qb)
    have hq: "\<forall>x\<in>set q. height (heap s (b_exec s)) < height (heap s x)"
      using commit_walk_heights[OF Some] Inr qb by auto
    show ?thesis
    proof (cases "b \<noteq> b_exec s")
      case True
      then show ?thesis using assms Some Inr qb
        by (auto simp: commit_def state_after_def update_frame_refl heights_grow_refl)
    next
      case False
      then have r: "commit_blocks s (rev q) = r"
        using assms Some Inr qb by (simp add: commit_def)
      note cf = commit_blocks_frame[OF r]
      have uf: "update_frame s (state_after r)" using cf by simp
      have "height (heap s (b_exec s)) \<le> height (heap (state_after r) (b_exec (state_after r)))"
        using cf hq update_frame_block(1)[OF uf] by auto
      then have "heights_grow s (state_after r)"
        using cf update_frame_block(1)[OF uf] uf
        by (simp add: heights_grow_def update_frame_def)
      then show ?thesis using uf by simp
    qed
  qed
qed

lemma update_grows:
  assumes "update s nblk = Some r"
  shows "update_frame s (state_after r) \<and> heights_grow s (state_after r)"
proof (cases "remove_seen_proposed s nblk")
  case (Inl f)
  then show ?thesis
    using assms remove_seen_proposed_frame[OF Inl] by (auto simp: update_def)
next
  case (Inr s0)
  have s0: "update_frame s s0" "heights_grow s s0"
    using remove_seen_proposed_frame[OF Inr] by (simp_all add: state_after_def)
  note tc = three_chain_frame[OF refl, of s0 nblk]
  show ?thesis
  proof (cases "three_chain s0 nblk")
    case (Inl f)
    then have "r = Inl f" using assms Inr by (simp add: update_def)
    moreover have "state_after (Inl f :: core result) = state_after (map_sum id fst (three_chain s0 nblk))"
      using Inl by (simp add: state_after_def)
    ultimately show ?thesis
      using tc s0 update_frame_trans heights_grow_trans by metis
  next
    case (Inr tb)
    obtain s2 ob where tb: "tb = (s2, ob)" by (cases tb)
    have s2: "update_frame s0 s2" "heights_grow s0 s2"
      using tc Inr tb by (simp_all add: state_after_def)
    have s02: "update_frame s s2" "heights_grow s s2"
      using s0 s2 update_frame_trans heights_grow_trans by blast+
    show ?thesis
    proof (cases ob)
      case None
      then have "r = Inr s2" using assms \<open>remove_seen_proposed s nblk = Inr s0\<close> Inr tb
        by (simp add: update_def)
      then show ?thesis using s02 by (simp add: state_after_def)
    next
      case (Some blk)
      then have "commit s2 blk = Some r"
        using assms \<open>remove_seen_proposed s nblk = Inr s0\<close> Inr tb by (simp add: update_def)
      from commit_frame[OF this] show ?thesis
        using s02 update_frame_trans heights_grow_trans by blast
    qed
  qed
qed

lemma update_commits_linked:
  assumes "update s nblk = Some r" and "\<not> nothing_committed s (state_after r)"
  shows "\<exists>blk2 blk1 blk q. linked s nblk blk2 blk1 blk \<and>
           commit_walk (heap s) (height (heap s (b_exec s))) blk [] = Some (Inr (q, b_exec s))"
proof (cases "remove_seen_proposed s nblk")
  case (Inl f)
  then have "r = Inl f" using assms(1) by (simp add: update_def)
  then show ?thesis
    using assms(2) remove_seen_proposed_frame[OF Inl] by simp
next
  case (Inr s0)
  have s0: "nothing_committed s s0" "heap s0 = heap s" "b_exec s0 = b_exec s"
    using remove_seen_proposed_frame[OF Inr] by (simp_all add: state_after_def)
  note tc = three_chain_frame[OF refl, of s0 nblk]
  show ?thesis
  proof (cases "three_chain s0 nblk")
    case (Inl f)
    then have "r = Inl f" using assms(1) Inr by (simp add: update_def)
    moreover have "state_after (Inl f :: core result) = state_after (map_sum id fst (three_chain s0 nblk))"
      using Inl by (simp add: state_after_def)
    ultimately have "nothing_committed s (state_after r)"
      using tc s0 nothing_committed_trans by metis
    then show ?thesis using assms(2) by simp
  next
    case tcr: (Inr tb)
    obtain s2 ob where tb: "tb = (s2, ob)" by (cases tb)
    have s2: "nothing_committed s0 s2" "heap s2 = heap s0" "b_exec s2 = b_exec s0"
      using tc tcr tb by (simp_all add: state_after_def)
    have n2: "nothing_committed s s2"
      using s0 s2 nothing_committed_trans by blast
    show ?thesis
    proof (cases ob)
      case None
      then have "r = Inr s2" using assms(1) Inr tcr tb by (simp add: update_def)
      then show ?thesis using n2 assms(2) by (simp add: state_after_def)
    next
      case (Some blk)
      then have c: "commit s2 blk = Some r"
        using assms(1) Inr tcr tb by (simp add: update_def)
      obtain blk2 blk1 where "linked s0 nblk blk2 blk1 blk"
        using three_chain_linked[of s0 nblk s2 blk] tcr tb Some by auto
      then have l: "linked s nblk blk2 blk1 blk"
        using s0 by (simp add: linked_def)
      have w: "commit_walk (heap s2) (height (heap s2 (b_exec s2))) blk [] =
               commit_walk (heap s) (height (heap s (b_exec s))) blk []"
        using s0 s2 by simp
      have "\<exists>q. commit_walk (heap s2) (height (heap s2 (b_exec s2))) blk [] = Some (Inr (q, b_exec s2))"
      proof (rule ccontr)
        assume a: "\<not> ?thesis"
        have "\<exists>e. r = Inl (e, s2)"
          using c a
          by (auto simp: commit_def split: option.splits sum.splits if_splits)
        then show False using assms(2) n2 by (auto simp: state_after_def)
      qed
      then show ?thesis using l w s0 s2 by auto
    qed
  qed
qed

lemma update_safety_breached:
  assumes "linked s nblk blk2 blk1 blk"
    and "decision (heap s blk2) = 0" "decision (heap s blk1) = 0" "decision (heap s blk) = 0"
    and "orders (heap s nblk) \<noteq> []" "qc (heap s nblk) \<noteq> None"
    and "commit_walk (heap s) (height (heap s (b_exec s))) blk [] = Some (Inr (q, b))"
    and "b \<noteq> b_exec s"
  shows "\<exists>t. update s nblk = Some (Inl (SafetyBreached, t)) \<and> nothing_committed s t"
proof -
  have "\<exists>s0. remove_seen_proposed s nblk = Inr s0"
    using assms(5) by (cases "orders (heap s nblk)") (simp_all add: remove_seen_proposed_def)
  then obtain s0 where s0: "remove_seen_proposed s nblk = Inr s0" by blast
  have h0: "nothing_committed s s0" "heap s0 = heap s" "b_exec s0 = b_exec s"
    using remove_seen_proposed_frame[OF s0] by (simp_all add: state_after_def)
  have "\<exists>s2. three_chain s0 nblk = Inr (s2, Some blk)"
    using assms(1-4,6) h0(2)
    by (auto simp: three_chain_def linked_def update_hqc_def on_hqc_update_def Let_def)
  then obtain s2 where s2: "three_chain s0 nblk = Inr (s2, Some blk)" by blast
  have h2: "nothing_committed s0 s2" "heap s2 = heap s0" "b_exec s2 = b_exec s0"
    using three_chain_frame[OF s2] by (simp_all add: state_after_def)
  have "commit s2 blk = Some (Inl (SafetyBreached, s2))"
    using assms(7,8) h0 h2 by (simp add: commit_def)
  then have "update s nblk = Some (Inl (SafetyBreached, s2))"
    using s0 s2 by (simp add: update_def)
  moreover have "nothing_committed s s2"
    using h0 h2 nothing_committed_trans by blast
  ultimately show ?thesis by blast
qed

lemmas ex_defs = ex_core_def ex_heap_def ex_blk_def create_quorum_cert_def

lemmas update_defs = update_def remove_seen_proposed_def three_chain_def update_hqc_def
  on_hqc_update_def commit_def commit_walk.simps commit_block_def set_blk_def

text \<open>
  C1: whatever \<^verbatim>\<open>update(nblk)\<close> commits (a decision set, \<^verbatim>\<open>do_consensus\<close> or \<^verbatim>\<open>do_decide\<close>
  called, \<open>b_exec\<close> moved), it commits only when \<open>blk2 = nblk.qc_ref\<close>, \<open>blk1 = blk2.qc_ref\<close>
  and \<open>blk = blk1.qc_ref\<close> are directly linked (\<open>blk2.parents[0] = blk1\<close> and
  \<open>blk1.parents[0] = blk\<close>) and the walk from \<open>blk\<close> along \<open>parents[0]\<close> down to the height
  of \<open>b_exec\<close> ends at \<open>b_exec\<close>. When the three undecided blocks are linked and the walk
  ends at another block, \<^verbatim>\<open>update\<close> throws the safety-breached error and nothing has been
  committed.
\<close>

theorem commit_needs_three_chain:
  "(update s nblk = Some r \<and> \<not> nothing_committed s (state_after r) \<longrightarrow>
      (\<exists>blk2 blk1 blk q. linked s nblk blk2 blk1 blk \<and>
         commit_walk (heap s) (height (heap s (b_exec s))) blk [] = Some (Inr (q, b_exec s)))) \<and>
   (linked s nblk blk2 blk1 blk \<and>
    decision (heap s blk2) = 0 \<and> decision (heap s blk1) = 0 \<and> decision (heap s blk) = 0 \<and>
    orders (heap s nblk) \<noteq> [] \<and> qc (heap s nblk) \<noteq> None \<and>
    commit_walk (heap s) (height (heap s (b_exec s))) blk [] = Some (Inr (q, b)) \<and>
    b \<noteq> b_exec s \<longrightarrow>
      (\<exists>t. update s nblk = Some (Inl (SafetyBreached, t)) \<and> nothing_committed s t))"
  using update_commits_linked[of s nblk r]
    update_safety_breached[of s nblk blk2 blk1 blk q b]
  by blast

theorem commit_needs_three_chain_witness:
  "(\<exists>s'. update ex_core 4 = Some (Inr s') \<and> \<not> nothing_committed ex_core s' \<and>
      b_exec s' = 1 \<and> consensus s' = [1] \<and> decision (heap s' 1) = 1 \<and>
      map cmd_idx (decided s') = [0, 1] \<and> map cmd_hash (decided s') = [2, 3]) \<and>
   (\<exists>q. linked ex_core 4 3 2 1 \<and>
      commit_walk (heap ex_core) (height (heap ex_core (b_exec ex_core))) 1 [] = Some (Inr (q, b_exec ex_core))) \<and>
   linked forked_core 4 3 2 1 \<and>
   commit_walk (heap forked_core) (height (heap forked_core (b_exec forked_core))) 1 [] = Some (Inr ([], 1)) \<and>
   b_exec forked_core = 7 \<and>
   (\<exists>t. update forked_core 4 = Some (Inl (SafetyBreached, t)) \<and> nothing_committed forked_core t)"
proof -
  have u: "\<exists>s'. update ex_core 4 = Some (Inr s') \<and> \<not> nothing_committed ex_core s' \<and>
      b_exec s' = 1 \<and> consensus s' = [1] \<and> decision (heap s' 1) = 1 \<and>
      map cmd_idx (decided s') = [0, 1] \<and> map cmd_hash (decided s') = [2, 3]"
    by (simp add: update_defs finalize_defs ex_defs nothing_committed_def)
  then obtain s' where s': "update ex_core 4 = Some (Inr s')" "\<not> nothing_committed ex_core s'"
    by blast
  have l: "linked ex_core 4 3 2 1"
    by (simp add: linked_def ex_defs)
  have "\<exists>blk2 blk1 blk q. linked ex_core 4 blk2 blk1 blk \<and>
         commit_walk (heap ex_core) (height (heap ex_core (b_exec ex_core))) blk [] = Some (Inr (q, b_exec ex_core))"
    using commit_needs_three_chain[of ex_core 4 "Inr s'"] s' by (simp add: state_after_def)
  then have w: "\<exists>q. commit_walk (heap ex_core) (height (heap ex_core (b_exec ex_core))) 1 [] = Some (Inr (q, b_exec ex_core))"
    using l by (auto simp: linked_def)
  have lf: "linked forked_core 4 3 2 1"
    by (simp add: linked_def forked_core_def ex_defs)
  have wf: "commit_walk (heap forked_core) (height (heap forked_core (b_exec forked_core))) 1 [] = Some (Inr ([], 1))"
    by (simp add: commit_walk.simps forked_core_def ex_defs)
  have d: "decision (heap forked_core 3) = 0" "decision (heap forked_core 2) = 0"
    "decision (heap forked_core 1) = 0" "orders (heap forked_core 4) \<noteq> []"
    "qc (heap forked_core 4) \<noteq> None" "1 \<noteq> b_exec forked_core" "b_exec forked_core = 7"
    by (simp_all add: forked_core_def ex_defs)
  have f: "\<exists>t. update forked_core 4 = Some (Inl (SafetyBreached, t)) \<and> nothing_committed forked_core t"
    using commit_needs_three_chain[of forked_core 4 "Inr forked_core" 3 2 1 "[]" 1] lf wf d by blast
  show ?thesis
    using u l w lf wf d(7) f by blast
qed

subsection \<open>Proposals\<close>

lemma form_opinion_result:
  assumes "form_opinion s bnew = Some r"
  shows "case r of
           Inl (e, t) \<Rightarrow> t = s
         | Inr (op, t) \<Rightarrow>
             t = (if op then s\<lparr>vheight := height (heap s bnew)\<rparr> else s) \<and>
             (op \<longleftrightarrow> vheight s < height (heap s bnew) \<and> vote_rule s bnew)"
proof (cases "vheight s < height (heap s bnew)")
  case False
  then show ?thesis using assms by (auto simp: form_opinion_def)
next
  case True
  show ?thesis
  proof (cases "case qc_ref (heap s bnew) of None \<Rightarrow> False
                | Some r \<Rightarrow> height (heap s (b_lock s)) < height (heap s r)")
    case True
    then show ?thesis using assms \<open>vheight s < height (heap s bnew)\<close>
      by (auto simp: form_opinion_def vote_rule_def)
  next
    case False
    then show ?thesis using assms \<open>vheight s < height (heap s bnew)\<close>
      by (auto simp: form_opinion_def vote_rule_def split: option.splits sum.splits if_splits)
  qed
qed

lemma vote_rule_cong:
  "heap t = heap s \<Longrightarrow> b_lock t = b_lock s \<Longrightarrow> vote_rule t b = vote_rule s b"
  by (simp add: vote_rule_def split: option.splits)

lemma on_qc_finish_frame:
  "heap (on_qc_finish s b) = heap s \<and> hqc (on_qc_finish s b) = hqc s \<and>
   b_lock (on_qc_finish s b) = b_lock s \<and> b_exec (on_qc_finish s b) = b_exec s \<and>
   vheight (on_qc_finish s b) = vheight s \<and> votes_sent (on_qc_finish s b) = votes_sent s \<and>
   core_id (on_qc_finish s b) = core_id s \<and> vote_disabled (on_qc_finish s b) = vote_disabled s"
  by (simp add: on_qc_finish_def)

text \<open>The state in which the opinion is formed, and what follows it.\<close>

lemma proposal_opinion_Inr:
  assumes "proposal_opinion s prop = Some (Inr (op, s4))"
  shows "\<exists>s1. update_frame s s1 \<and> heights_grow s s1 \<and>
           heap s4 = heap s1 \<and> hqc s4 = hqc s1 \<and> b_lock s4 = b_lock s1 \<and> b_exec s4 = b_exec s1 \<and>
           votes_sent s4 = votes_sent s \<and> core_id s4 = core_id s \<and>
           vote_disabled s4 = vote_disabled s \<and>
           vheight s4 = (if op then height (heap s1 (prop_blk prop)) else vheight s) \<and>
           (op \<longleftrightarrow> vheight s < height (heap s1 (prop_blk prop)) \<and> vote_rule s1 (prop_blk prop))"
proof -
  let ?bnew = "prop_blk prop"
  let ?pre = "if proposer prop \<noteq> core_id s then
                 (if \<not> delivered (heap s ?bnew) then Some (Inl (BlockNotDelivered, s))
                  else update s ?bnew)
               else Some (Inr s)"
  obtain s1 where pre: "?pre = Some (Inr s1)"
    using assms by (auto simp: proposal_opinion_def Let_def split: option.splits sum.splits)
  have f1: "update_frame s s1 \<and> heights_grow s s1"
  proof (cases "proposer prop \<noteq> core_id s")
    case True
    then have "update s ?bnew = Some (Inr s1)" using pre by (auto split: if_splits)
    from update_grows[OF this] show ?thesis by (simp add: state_after_def)
  next
    case False
    then show ?thesis using pre by (auto simp: update_frame_refl heights_grow_refl)
  qed
  obtain s2 where fo: "form_opinion s1 ?bnew = Some (Inr (op, s2))"
    and s4: "s4 = on_receive_proposal_resolve
                    (if proposer prop \<noteq> core_id s then
                       (case qc_ref (heap s2 ?bnew) of None \<Rightarrow> s2 | Some r \<Rightarrow> on_qc_finish s2 r)
                     else s2) prop"
    using assms pre
    by (auto simp: proposal_opinion_def Let_def split: option.splits sum.splits)
  have s2: "s2 = (if op then s1\<lparr>vheight := height (heap s1 ?bnew)\<rparr> else s1)"
    and op: "op \<longleftrightarrow> vheight s1 < height (heap s1 ?bnew) \<and> vote_rule s1 ?bnew"
    using form_opinion_result[OF fo] by simp_all
  have v1: "vheight s1 = vheight s" "votes_sent s1 = votes_sent s" "core_id s1 = core_id s"
    "vote_disabled s1 = vote_disabled s"
    using f1 by (simp_all add: update_frame_def)
  have "heap s4 = heap s1 \<and> hqc s4 = hqc s1 \<and> b_lock s4 = b_lock s1 \<and> b_exec s4 = b_exec s1 \<and>
        votes_sent s4 = votes_sent s1 \<and> core_id s4 = core_id s1 \<and>
        vote_disabled s4 = vote_disabled s1 \<and>
        vheight s4 = (if op then height (heap s1 ?bnew) else vheight s1)"
    unfolding s4 s2
    by (auto simp: on_receive_proposal_resolve_def on_qc_finish_frame split: option.splits)
  then show ?thesis
    using f1 v1 op by auto
qed

lemmas proposal_defs = on_receive_proposal_def proposal_opinion_def form_opinion_def
  lock_walk.simps on_qc_finish_def on_receive_proposal_resolve_def do_vote_def

text \<open>
  C2: when \<^verbatim>\<open>on_receive_proposal\<close> returns, it has sent a vote only if the height of the
  proposed block \<open>b\<close> exceeds \<open>vheight\<close> as it was when the proposal came in, and the vote
  rule holds (\<open>b\<close> has a \<open>qc_ref\<close> higher than \<open>b_lock\<close>, or the walk along \<open>parents[0]\<close> from
  \<open>b\<close> down to the height of \<open>b_lock\<close> ends at \<open>b_lock\<close>); the vote is for \<open>b\<close>, and \<open>vheight\<close>
  becomes the height of \<open>b\<close>. A proposal for which the vote rule fails (its \<open>qc_ref\<close> is not
  higher than \<open>b_lock\<close> and its chain does not pass through \<open>b_lock\<close>) produces no vote and
  leaves \<open>vheight\<close> as it was. \<open>b_lock\<close> is the locked block after the \<^verbatim>\<open>update\<close> that the
  proposal triggers.
\<close>

theorem vote_only_by_rule:
  assumes "on_receive_proposal s prop = Some (Inr s')"
  shows "(votes_sent s' \<noteq> votes_sent s \<longrightarrow>
            votes_sent s' = votes_sent s @
              [(proposer prop, \<lparr>voter = core_id s, blk_hash = hash (heap s (prop_blk prop))\<rparr>)] \<and>
            vheight s < height (heap s (prop_blk prop)) \<and>
            vheight s' = height (heap s (prop_blk prop)) \<and>
            vote_rule s' (prop_blk prop)) \<and>
         (\<not> vote_rule s' (prop_blk prop) \<longrightarrow>
            votes_sent s' = votes_sent s \<and> vheight s' = vheight s)"
proof -
  obtain op s4 where po: "proposal_opinion s prop = Some (Inr (op, s4))"
    and s': "s' = (if op \<and> \<not> vote_disabled s4
                   then do_vote s4 (proposer prop)
                          \<lparr>voter = core_id s4, blk_hash = hash (heap s4 (prop_blk prop))\<rparr>
                   else s4)"
    using assms by (auto simp: on_receive_proposal_def split: option.splits sum.splits)
  obtain s1 where s1: "update_frame s s1" "heap s4 = heap s1" "b_lock s4 = b_lock s1"
    "votes_sent s4 = votes_sent s" "core_id s4 = core_id s"
    "vheight s4 = (if op then height (heap s1 (prop_blk prop)) else vheight s)"
    "op \<longleftrightarrow> vheight s < height (heap s1 (prop_blk prop)) \<and> vote_rule s1 (prop_blk prop)"
    using proposal_opinion_Inr[OF po] by blast
  have hs: "heap s' = heap s1" "b_lock s' = b_lock s1" "vheight s' = vheight s4"
    unfolding s' using s1(2,3) by (simp_all add: do_vote_def)
  have vr: "vote_rule s' (prop_blk prop) = vote_rule s1 (prop_blk prop)"
    using hs(1,2) by (rule vote_rule_cong)
  have hh: "height (heap s1 (prop_blk prop)) = height (heap s (prop_blk prop))"
    "hash (heap s4 (prop_blk prop)) = hash (heap s (prop_blk prop))"
    using update_frame_block(1,4)[OF s1(1)] s1(2) by simp_all
  have vs: "votes_sent s' = (if op \<and> \<not> vote_disabled s4
              then votes_sent s @ [(proposer prop, \<lparr>voter = core_id s, blk_hash = hash (heap s (prop_blk prop))\<rparr>)]
              else votes_sent s)"
    unfolding s' using s1(4,5) hh(2) by (simp add: do_vote_def)
  show ?thesis
    using vs vr hs(3) s1(6,7) hh(1) by auto
qed

theorem vote_only_by_rule_witness:
  "(\<exists>s'. on_receive_proposal ex_core \<lparr>proposer = 1, prop_blk = 4\<rparr> = Some (Inr s') \<and>
      votes_sent s' = [(1, \<lparr>voter = 0, blk_hash = 4\<rparr>)] \<and> vheight ex_core = 0 \<and>
      vheight s' = 5 \<and> vote_rule s' 4) \<and>
   (\<exists>s'. on_receive_proposal locked_core \<lparr>proposer = 1, prop_blk = 4\<rparr> = Some (Inr s') \<and>
      b_lock s' = 6 \<and> height (heap s' 6) = 4 \<and> qc_ref (heap s' 4) = Some 3 \<and>
      height (heap s' 3) = 4 \<and>
      lock_walk (heap s') (height (heap s' (b_lock s'))) 4 = Some (Inr 3) \<and>
      \<not> vote_rule s' 4 \<and> votes_sent s' = votes_sent locked_core \<and>
      vheight s' = vheight locked_core)"
proof -
  let ?p = "\<lparr>proposer = 1, prop_blk = 4\<rparr>"
  have "\<exists>s'. on_receive_proposal ex_core ?p = Some (Inr s') \<and> votes_sent s' \<noteq> votes_sent ex_core"
    by (simp add: proposal_defs update_defs finalize_defs ex_defs)
  then obtain s1 where s1: "on_receive_proposal ex_core ?p = Some (Inr s1)"
    "votes_sent s1 \<noteq> votes_sent ex_core" by blast
  have e: "votes_sent ex_core = []" "core_id ex_core = 0" "hash (heap ex_core 4) = 4"
    "height (heap ex_core 4) = 5" "vheight ex_core = 0"
    by (simp_all add: ex_defs)
  have a: "votes_sent s1 = [(1, \<lparr>voter = 0, blk_hash = 4\<rparr>)] \<and> vheight s1 = 5 \<and> vote_rule s1 4"
    using vote_only_by_rule[OF s1(1)] s1(2) e by simp
  have "\<exists>s'. on_receive_proposal locked_core ?p = Some (Inr s') \<and>
      b_lock s' = 6 \<and> height (heap s' 6) = 4 \<and> qc_ref (heap s' 4) = Some 3 \<and>
      height (heap s' 3) = 4 \<and>
      lock_walk (heap s') (height (heap s' (b_lock s'))) 4 = Some (Inr 3) \<and> \<not> vote_rule s' 4"
    by (simp add: proposal_defs update_defs finalize_defs ex_defs locked_core_def vote_rule_def)
  then obtain s2 where s2: "on_receive_proposal locked_core ?p = Some (Inr s2)"
    "b_lock s2 = 6" "height (heap s2 6) = 4" "qc_ref (heap s2 4) = Some 3" "height (heap s2 3) = 4"
    "lock_walk (heap s2) (height (heap s2 (b_lock s2))) 4 = Some (Inr 3)" "\<not> vote_rule s2 4"
    by blast
  have b: "votes_sent s2 = votes_sent locked_core \<and> vheight s2 = vheight locked_core"
    using vote_only_by_rule[OF s2(1)] s2(7) by simp
  show ?thesis
    using s1(1) a e(5) s2 b by blast
qed

subsection \<open>The switch \<open>vote_disabled\<close>\<close>

lemma vd_fields [simp]:
  "heap (set_vote_disabled x s) = heap s" "hqc (set_vote_disabled x s) = hqc s"
  "b_lock (set_vote_disabled x s) = b_lock s" "b_exec (set_vote_disabled x s) = b_exec s"
  "vheight (set_vote_disabled x s) = vheight s" "core_id (set_vote_disabled x s) = core_id s"
  "fairness_parameter (set_vote_disabled x s) = fairness_parameter s"
  "fpu (set_vote_disabled x s) = fpu s"
  "qc_waiting (set_vote_disabled x s) = qc_waiting s"
  "vote_disabled (set_vote_disabled x s) = x"
  "votes_sent (set_vote_disabled x s) = votes_sent s"
  by (simp_all add: set_vote_disabled_def)

















subsection \<open>Monotone heights\<close>


















end
